theory Spec2Isabelle
  imports Main "HOL-Library.AList" "HOL-Library.Word"
begin

section \<open>The room-scoped event fan-out of \<open>internal/api/api.go\<close>\<close>

text \<open>
  The theory embeds the subscription table of \<open>apiHandler\<close>, the broadcaster
  \<open>notifyClients\<close>, the connection lifecycle \<open>handleSubscribe\<close> and the four
  state-changing HTTP handlers. Go's mutex makes each locked section one atomic step on an
  explicit state; a goroutine started with \<open>go\<close> is returned by the handler as a
  pending call; connections and cancellation contexts are identities (natural numbers)
  whose observable condition is kept in the state.
\<close>

subsection \<open>Wire format\<close>

text \<open>
  The document that \<open>encoding/json\<close> produces for the structs of this file, as a tree:
  object fields in struct order under their \<open>json\<close> tags, a field tagged \<open>"-"\<close>
  left out, an \<open>int64\<close> as a number.
\<close>

datatype json = JString string | JNumber int | JObject "(string \<times> json) list"

text \<open>
  The dynamic type of \<open>Message.Value\<close> (\<open>any\<close>): one constructor per payload struct,
  with the struct's fields in order: \<open>MessageCreated{ID, Message}\<close>,
  \<open>MessageAnswered{ID}\<close>, \<open>MessageReaction{ID, ReactCount}\<close>.
\<close>

datatype any =
    MessageCreated string string
  | MessageAnswered string
  | MessageReaction string "64 word"

record Message =
  Kind :: string
  Value :: any
  RoomID :: string

definition KindMessageCreated :: string where
  "KindMessageCreated = ''message_created''"

definition KindMessageAnswered :: string where
  "KindMessageAnswered = ''message_answered''"

definition KindMessageReactionIncreased :: string where
  "KindMessageReactionIncreased = ''message_reaction_increased''"

definition KindMessageReactionDecreased :: string where
  "KindMessageReactionDecreased = ''message_reaction_decreased''"

fun marshal_any :: "any \<Rightarrow> json" where
  "marshal_any (MessageCreated ident message) =
     JObject [(''id'', JString ident), (''message'', JString message)]"
| "marshal_any (MessageAnswered ident) =
     JObject [(''id'', JString ident)]"
| "marshal_any (MessageReaction ident reactCount) =
     JObject [(''id'', JString ident), (''react_count'', JNumber (sint reactCount))]"

definition marshal :: "Message \<Rightarrow> json" where
  "marshal msg = JObject [(''kind'', JString (Kind msg)), (''value'', marshal_any (Value msg))]"

text \<open>The names of the fields of a JSON object, in order.\<close>

fun field_names :: "json \<Rightarrow> string list" where
  "field_names (JObject kvs) = map fst kvs"
| "field_names _ = []"

subsection \<open>State\<close>

type_synonym conn = nat
type_synonym ctx = nat

text \<open>
  \<open>subscribes\<close> is the handler's table \<open>map[string]map[*websocket.Conn]context.CancelFunc\<close>;
  an inner map is an association list with one entry per connection. The other fields
  are the runtime the handler acts on: the frames each connection has accepted, the
  connections on which a write fails, the connections closed by \<open>conn.Close\<close>, the
  contexts that are done, and the next connection and context to be allocated.
\<close>

record state =
  subscribes :: "string \<rightharpoonup> (conn \<times> ctx) list"
  sent :: "conn \<Rightarrow> json list"
  broken :: "conn set"
  closed :: "conn set"
  cancelled :: "ctx set"
  next_conn :: nat
  next_ctx :: nat

datatype error = ErrNoRows | ErrOther

text \<open>\<open>NewHandler\<close>: an empty table; nothing allocated yet.\<close>

definition NewHandler :: state where
  "NewHandler = \<lparr>subscribes = Map.empty, sent = (\<lambda>_. []), broken = {}, closed = {},
     cancelled = {}, next_conn = 0, next_ctx = 0\<rparr>"

text \<open>
  \<open>conn.WriteJSON(msg)\<close>: on a healthy connection the encoded message is appended to
  what the peer receives; on a broken or closed one an error is returned.
\<close>

definition WriteJSON :: "conn \<Rightarrow> Message \<Rightarrow> state \<Rightarrow> error option \<times> state" where
  "WriteJSON c msg s =
     (if c \<in> broken s \<or> c \<in> closed s then (Some ErrOther, s)
      else (None, s\<lparr>sent := (sent s)(c := sent s c @ [marshal msg])\<rparr>))"

text \<open>Calling a \<open>context.CancelFunc\<close>: its context is done from then on.\<close>

definition CancelFunc :: "ctx \<Rightarrow> state \<Rightarrow> state" where
  "CancelFunc x s = s\<lparr>cancelled := insert x (cancelled s)\<rparr>"

subsection \<open>\<open>notifyClients\<close>\<close>

text \<open>The \<open>for conn, cancel := range subscribes\<close> loop (lines 115-120).\<close>

fun notify_loop :: "Message \<Rightarrow> (conn \<times> ctx) list \<Rightarrow> state \<Rightarrow> state" where
  "notify_loop msg [] s = s"
| "notify_loop msg ((c, cancel) # rest) s =
     (case WriteJSON c msg s of
        (Some err, s') \<Rightarrow> notify_loop msg rest (CancelFunc cancel s')
      | (None, s') \<Rightarrow> notify_loop msg rest s')"

text \<open>
  \<open>notifyClients\<close> (lines 106-121) has no result value: the model returns the state it
  leaves behind.
\<close>

definition notifyClients :: "Message \<Rightarrow> state \<Rightarrow> state" where
  "notifyClients msg s =
     (case subscribes s (RoomID msg) of
        None \<Rightarrow> s
      | Some subs \<Rightarrow> if length subs = 0 then s else notify_loop msg subs s)"

subsection \<open>The blocks of \<open>handleSubscribe\<close>\<close>

text \<open>
  \<open>h.subscribes[r][c]\<close>: the cancel function stored for connection \<open>c\<close> under key
  \<open>r\<close>, if any (indexing a missing inner map finds nothing).
\<close>

definition registered :: "state \<Rightarrow> string \<Rightarrow> conn \<Rightarrow> ctx option" where
  "registered s r c = (case subscribes s r of None \<Rightarrow> None | Some m \<Rightarrow> map_of m c)"

text \<open>
  Lines 152-158, under the lock: create the inner map when the key is missing, then
  \<open>h.subscribes[rawRoomID][conn] = cancel\<close>.
\<close>

definition Register :: "string \<Rightarrow> conn \<Rightarrow> ctx \<Rightarrow> state \<Rightarrow> state" where
  "Register rawRoomID c cancel s =
     (let m = (case subscribes s rawRoomID of None \<Rightarrow> [] | Some m \<Rightarrow> m)
      in s\<lparr>subscribes := (subscribes s)(rawRoomID \<mapsto> AList.update c cancel m)\<rparr>)"

text \<open>
  Lines 162-164, under the lock: \<open>delete(h.subscribes[rawRoomID], conn)\<close>. Deleting from
  the nil map that a missing key yields does nothing.
\<close>

definition Deregister :: "string \<Rightarrow> conn \<Rightarrow> state \<Rightarrow> state" where
  "Deregister rawRoomID c s =
     (case subscribes s rawRoomID of
        None \<Rightarrow> s
      | Some m \<Rightarrow> s\<lparr>subscribes := (subscribes s)(rawRoomID \<mapsto> AList.delete c m)\<rparr>)"

text \<open>
  \<open>h.upgrader.Upgrade\<close>: whether the handshake succeeds is the peer's doing (the
  argument \<open>ok\<close>); a successful upgrade allocates a connection no one holds yet.
\<close>

definition Upgrade :: "bool \<Rightarrow> state \<Rightarrow> (error + conn) \<times> state" where
  "Upgrade ok s =
     (if ok then (Inr (next_conn s), s\<lparr>next_conn := Suc (next_conn s)\<rparr>)
      else (Inl ErrOther, s))"

text \<open>\<open>context.WithCancel\<close>: a new context; its cancel function is its identity.\<close>

definition WithCancel :: "state \<Rightarrow> ctx \<times> state" where
  "WithCancel s = (next_ctx s, s\<lparr>next_ctx := Suc (next_ctx s)\<rparr>)"

text \<open>The deferred \<open>conn.Close()\<close>.\<close>

definition Close :: "conn \<Rightarrow> state \<Rightarrow> state" where
  "Close c s = s\<lparr>closed := insert c (closed s)\<rparr>"

subsection \<open>Collaborators outside this file\<close>

type_synonym UUID = "128 word"

text \<open>
  Library functions the handlers call: \<open>uuid.Parse\<close>, \<open>UUID.String\<close>, and the decoding
  of a request body into its \<open>message\<close> field (\<open>None\<close>: the decoder returned an error).
\<close>

record lib =
  uuid_Parse :: "string \<Rightarrow> UUID option"
  uuid_String :: "UUID \<Rightarrow> string"
  json_Decode :: "string \<Rightarrow> string option"

text \<open>
  The queries of \<open>pgstore.Queries\<close> that the modelled handlers call, over a database
  \<open>'db\<close>. The row that \<open>GetRoom\<close> and \<open>GetMessage\<close> return is discarded by these
  handlers, so only the error is kept.
\<close>

record 'db Queries =
  GetRoom :: "'db \<Rightarrow> UUID \<Rightarrow> error option"
  GetMessage :: "'db \<Rightarrow> UUID \<Rightarrow> error option"
  InsertMessage :: "'db \<Rightarrow> UUID \<Rightarrow> string \<Rightarrow> (error + UUID) \<times> 'db"
  ReactToMessage :: "'db \<Rightarrow> UUID \<Rightarrow> (error + 64 word) \<times> 'db"
  RemoveReactionFromMessage :: "'db \<Rightarrow> UUID \<Rightarrow> (error + 64 word) \<times> 'db"
  MarkMessageAsAnswered :: "'db \<Rightarrow> UUID \<Rightarrow> error option \<times> 'db"

text \<open>
  What a handler reads from the request: the URL parameters \<open>room_id\<close> and
  \<open>message_id\<close>, and the body.
\<close>

record request =
  room_id :: string
  message_id :: string
  body :: string

text \<open>
  What a handler writes: \<open>http.Error(w, text, code)\<close>, a JSON body (status 200), or
  \<open>w.WriteHeader(code)\<close> alone.
\<close>

datatype response = Error string nat | Body json | Header nat

definition StatusNoContent :: nat where
  "StatusNoContent = 204"

definition StatusBadRequest :: nat where
  "StatusBadRequest = 400"

definition StatusInternalServerError :: nat where
  "StatusInternalServerError = 500"

subsection \<open>\<open>handleSubscribe\<close>\<close>

text \<open>
  Lines 124-150: everything before the first locked section. The result is either the
  error response (and the routine has returned), or the connection and cancel function
  the rest of the routine works with.
\<close>

definition handleSubscribe_begin ::
  "lib \<Rightarrow> 'db Queries \<Rightarrow> 'db \<Rightarrow> string \<Rightarrow> bool \<Rightarrow> state \<Rightarrow> (response + conn \<times> ctx) \<times> state" where
  "handleSubscribe_begin l q db rawRoomID ok s =
     (case uuid_Parse l rawRoomID of
        None \<Rightarrow> (Inl (Error ''invalid room id'' StatusBadRequest), s)
      | Some roomID \<Rightarrow>
          (case GetRoom q db roomID of
             Some err \<Rightarrow>
               (if err = ErrNoRows then (Inl (Error ''room not found'' StatusBadRequest), s)
                else (Inl (Error ''something went wrong'' StatusInternalServerError), s))
           | None \<Rightarrow>
               (case Upgrade ok s of
                  (Inl err, s') \<Rightarrow>
                    (Inl (Error ''failed to upgrade to ws connection'' StatusBadRequest), s')
                | (Inr c, s') \<Rightarrow>
                    (case WithCancel s' of (cancel, s'') \<Rightarrow> (Inr (c, cancel), s'')))))"

text \<open>
  Where a \<open>handleSubscribe\<close> call stands after line 150: before the locked section of
  lines 152-158, at the receive \<open>\<open><-ctx.Done()\<close>\<close> of line 160, before the locked section
  of lines 162-164, before the deferred \<open>conn.Close()\<close>, or returned.
\<close>

datatype pc = AtRegister | AtWait | AtDeregister | AtClose | Returned

text \<open>The locals of such a call: \<open>rawRoomID\<close>, \<open>ctx\<close> with its \<open>cancel\<close>, and its position.\<close>

record goroutine =
  g_room :: string
  g_ctx :: ctx
  g_pc :: pc

text \<open>
  One atomic block of lines 152-165 for the call that owns connection \<open>c\<close>. \<open>None\<close>: the
  call cannot move (it is blocked on a context that is not done, or it has returned).
\<close>

definition handleSubscribe_step :: "conn \<Rightarrow> goroutine \<Rightarrow> state \<Rightarrow> (goroutine \<times> state) option" where
  "handleSubscribe_step c g s =
     (case g_pc g of
        AtRegister \<Rightarrow> Some (g\<lparr>g_pc := AtWait\<rparr>, Register (g_room g) c (g_ctx g) s)
      | AtWait \<Rightarrow> if g_ctx g \<in> cancelled s then Some (g\<lparr>g_pc := AtDeregister\<rparr>, s) else None
      | AtDeregister \<Rightarrow> Some (g\<lparr>g_pc := AtClose\<rparr>, Deregister (g_room g) c s)
      | AtClose \<Rightarrow> Some (g\<lparr>g_pc := Returned\<rparr>, Close c s)
      | Returned \<Rightarrow> None)"

subsection \<open>The state-changing handlers\<close>

text \<open>
  Each returns its response, the database after its queries, and the
  \<open>go h.notifyClients(...)\<close> calls it has started.
\<close>

definition handleCreateRoomMessages ::
  "lib \<Rightarrow> 'db Queries \<Rightarrow> request \<Rightarrow> 'db \<Rightarrow> response \<times> 'db \<times> Message list" where
  "handleCreateRoomMessages l q r db =
     (let rawRoomID = room_id r in
      case uuid_Parse l rawRoomID of
        None \<Rightarrow> (Error ''invalid room id'' StatusBadRequest, db, [])
      | Some roomID \<Rightarrow>
      (case GetRoom q db roomID of
        Some err \<Rightarrow>
          (if err = ErrNoRows then (Error ''room not found'' StatusBadRequest, db, [])
           else (Error ''something went wrong'' StatusInternalServerError, db, []))
      | None \<Rightarrow>
      (case json_Decode l (body r) of
        None \<Rightarrow> (Error ''invalid json'' StatusBadRequest, db, [])
      | Some message \<Rightarrow>
      (case InsertMessage q db roomID message of
        (Inl err, db') \<Rightarrow> (Error ''something went wrong'' StatusInternalServerError, db', [])
      | (Inr messageID, db') \<Rightarrow>
          (Body (JObject [(''id'', JString (uuid_String l messageID))]), db',
           [\<lparr>Kind = KindMessageCreated,
             Value = MessageCreated (uuid_String l messageID) message,
             RoomID = rawRoomID\<rparr>])))))"

definition handleReactToMessage ::
  "lib \<Rightarrow> 'db Queries \<Rightarrow> request \<Rightarrow> 'db \<Rightarrow> response \<times> 'db \<times> Message list" where
  "handleReactToMessage l q r db =
     (let rawRoomID = room_id r in
      case uuid_Parse l rawRoomID of
        None \<Rightarrow> (Error ''invalid room id'' StatusBadRequest, db, [])
      | Some roomID \<Rightarrow>
      (case GetRoom q db roomID of
        Some err \<Rightarrow>
          (if err = ErrNoRows then (Error ''room not found'' StatusBadRequest, db, [])
           else (Error ''something went wrong'' StatusInternalServerError, db, []))
      | None \<Rightarrow>
      (let rawMessageID = message_id r in
       case uuid_Parse l rawMessageID of
        None \<Rightarrow> (Error ''invalid message id'' StatusBadRequest, db, [])
      | Some messageID \<Rightarrow>
      (case GetMessage q db messageID of
        Some err \<Rightarrow>
          (if err = ErrNoRows then (Error ''message not found'' StatusBadRequest, db, [])
           else (Error ''something went wrong'' StatusInternalServerError, db, []))
      | None \<Rightarrow>
      (case ReactToMessage q db messageID of
        (Inl err, db') \<Rightarrow> (Error ''something went wrong'' StatusInternalServerError, db', [])
      | (Inr reactCount, db') \<Rightarrow>
          (Body (JObject [(''react_count'', JNumber (sint reactCount))]), db',
           [\<lparr>Kind = KindMessageReactionIncreased,
             Value = MessageReaction (uuid_String l messageID) reactCount,
             RoomID = rawRoomID\<rparr>]))))))"

definition handleRemoveReactFromMessage ::
  "lib \<Rightarrow> 'db Queries \<Rightarrow> request \<Rightarrow> 'db \<Rightarrow> response \<times> 'db \<times> Message list" where
  "handleRemoveReactFromMessage l q r db =
     (let rawRoomID = room_id r in
      case uuid_Parse l rawRoomID of
        None \<Rightarrow> (Error ''invalid room id'' StatusBadRequest, db, [])
      | Some roomID \<Rightarrow>
      (case GetRoom q db roomID of
        Some err \<Rightarrow>
          (if err = ErrNoRows then (Error ''room not found'' StatusBadRequest, db, [])
           else (Error ''something went wrong'' StatusInternalServerError, db, []))
      | None \<Rightarrow>
      (let rawMessageID = message_id r in
       case uuid_Parse l rawMessageID of
        None \<Rightarrow> (Error ''invalid message id'' StatusBadRequest, db, [])
      | Some messageID \<Rightarrow>
      (case GetMessage q db messageID of
        Some err \<Rightarrow>
          (if err = ErrNoRows then (Error ''message not found'' StatusBadRequest, db, [])
           else (Error ''something went wrong'' StatusInternalServerError, db, []))
      | None \<Rightarrow>
      (case RemoveReactionFromMessage q db messageID of
        (Inl err, db') \<Rightarrow> (Error ''something went wrong'' StatusInternalServerError, db', [])
      | (Inr reactCount, db') \<Rightarrow>
          (Body (JObject [(''react_count'', JNumber (sint reactCount))]), db',
           [\<lparr>Kind = KindMessageReactionDecreased,
             Value = MessageReaction (uuid_String l messageID) reactCount,
             RoomID = rawRoomID\<rparr>]))))))"

text \<open>
  In \<open>handleMarkMessageAsAnswer\<close> the value of the event is the composite literal
  \<open>MessageCreated{ID: messageID.String()}\<close> (lines 534-536): its \<open>Message\<close> field is the
  empty string.
\<close>

definition handleMarkMessageAsAnswer ::
  "lib \<Rightarrow> 'db Queries \<Rightarrow> request \<Rightarrow> 'db \<Rightarrow> response \<times> 'db \<times> Message list" where
  "handleMarkMessageAsAnswer l q r db =
     (let rawRoomID = room_id r in
      case uuid_Parse l rawRoomID of
        None \<Rightarrow> (Error ''invalid room id'' StatusBadRequest, db, [])
      | Some roomID \<Rightarrow>
      (case GetRoom q db roomID of
        Some err \<Rightarrow>
          (if err = ErrNoRows then (Error ''room not found'' StatusBadRequest, db, [])
           else (Error ''something went wrong'' StatusInternalServerError, db, []))
      | None \<Rightarrow>
      (let rawMessageID = message_id r in
       case uuid_Parse l rawMessageID of
        None \<Rightarrow> (Error ''invalid message id'' StatusBadRequest, db, [])
      | Some messageID \<Rightarrow>
      (case GetMessage q db messageID of
        Some err \<Rightarrow>
          (if err = ErrNoRows then (Error ''message not found'' StatusBadRequest, db, [])
           else (Error ''something went wrong'' StatusInternalServerError, db, []))
      | None \<Rightarrow>
      (case MarkMessageAsAnswered q db messageID of
        (Some err, db') \<Rightarrow> (Error ''something went wrong'' StatusInternalServerError, db', [])
      | (None, db') \<Rightarrow>
          (Header StatusNoContent, db',
           [\<lparr>Kind = KindMessageAnswered,
             Value = MessageCreated (uuid_String l messageID) [],
             RoomID = rawRoomID\<rparr>]))))))"

subsection \<open>The running server\<close>

text \<open>
  The shared state together with the \<open>handleSubscribe\<close> calls that are past line 150,
  each identified by the connection it owns.
\<close>

record system =
  st :: state
  handlers :: "conn \<rightharpoonup> goroutine"

text \<open>
  What can happen next: a subscription request arrives (with the database as it is
  then, the raw room id of the URL, and whether the handshake will succeed) and runs
  up to line 150; the call owning a connection runs its next block; a started
  \<open>notifyClients\<close> call runs; a context becomes done (the request it derives from has
  ended); a connection breaks.
\<close>

datatype 'db action =
    Subscribe 'db string bool
  | Run conn
  | Notify Message
  | Done ctx
  | Break conn

fun step :: "lib \<Rightarrow> 'db Queries \<Rightarrow> 'db action \<Rightarrow> system \<Rightarrow> system" where
  "step l q (Subscribe db rawRoomID ok) sys =
     (case handleSubscribe_begin l q db rawRoomID ok (st sys) of
        (Inl resp, s') \<Rightarrow> sys\<lparr>st := s'\<rparr>
      | (Inr (c, cancel), s') \<Rightarrow>
          \<lparr>st = s',
           handlers = (handlers sys)(c \<mapsto> \<lparr>g_room = rawRoomID, g_ctx = cancel, g_pc = AtRegister\<rparr>)\<rparr>)"
| "step l q (Run c) sys =
     (case handlers sys c of
        None \<Rightarrow> sys
      | Some g \<Rightarrow>
          (case handleSubscribe_step c g (st sys) of
             None \<Rightarrow> sys
           | Some (g', s') \<Rightarrow> \<lparr>st = s', handlers = (handlers sys)(c \<mapsto> g')\<rparr>))"
| "step l q (Notify msg) sys = sys\<lparr>st := notifyClients msg (st sys)\<rparr>"
| "step l q (Done x) sys = sys\<lparr>st := CancelFunc x (st sys)\<rparr>"
| "step l q (Break c) sys = sys\<lparr>st := (st sys)\<lparr>broken := insert c (broken (st sys))\<rparr>\<rparr>"

definition init :: system where
  "init = \<lparr>st = NewHandler, handlers = Map.empty\<rparr>"

definition exec :: "lib \<Rightarrow> 'db Queries \<Rightarrow> 'db action list \<Rightarrow> system" where
  "exec l q acts = foldl (\<lambda>sys a. step l q a sys) init acts"

text \<open>
  How far the call owning connection \<open>c\<close> has come: 0 when there is no such call yet,
  1 after the upgrade, 2 once registered and waiting, 3 once woken, 4 once deregistered,
  5 once the connection is closed and the call has returned.
\<close>

fun pc_rank :: "pc \<Rightarrow> nat" where
  "pc_rank AtRegister = 1"
| "pc_rank AtWait = 2"
| "pc_rank AtDeregister = 3"
| "pc_rank AtClose = 4"
| "pc_rank Returned = 5"

definition phase :: "system \<Rightarrow> conn \<Rightarrow> nat" where
  "phase sys c = (case handlers sys c of None \<Rightarrow> 0 | Some g \<Rightarrow> pc_rank (g_pc g))"


subsection \<open>Sample collaborators and states\<close>

text \<open>
  A small library instance and store on which the theorems below are exercised. The
  library reads two spellings of one room id and one spelling of a message id; the
  store knows that room and that message, and its database is a flag saying whether
  writes succeed.
\<close>

definition sample_lib :: lib where
  "sample_lib =
     \<lparr>uuid_Parse = map_of
        [(''0b0e7d2a-5c1f-4e7a-9f53-2d6a8c1e4b90'', 1),
         (''0b0e7d2a5c1f4e7a9f532d6a8c1e4b90'', 1),
         (''7c9e6679-7425-40de-944b-e07fc1f90ae7'', 2)],
      uuid_String = (\<lambda>u. if u = 1 then ''0b0e7d2a-5c1f-4e7a-9f53-2d6a8c1e4b90''
                         else ''7c9e6679-7425-40de-944b-e07fc1f90ae7''),
      json_Decode = (\<lambda>b. if b = [] then None else Some b)\<rparr>"

definition sample_q :: "bool Queries" where
  "sample_q =
     \<lparr>GetRoom = (\<lambda>db u. if u = 1 then None else Some ErrNoRows),
      GetMessage = (\<lambda>db u. if u = 2 then None else Some ErrNoRows),
      InsertMessage = (\<lambda>db u m. if db then (Inr 2, db) else (Inl ErrOther, db)),
      ReactToMessage = (\<lambda>db u. if db then (Inr 3, db) else (Inl ErrOther, db)),
      RemoveReactionFromMessage = (\<lambda>db u. if db then (Inr 2, db) else (Inl ErrOther, db)),
      MarkMessageAsAnswered = (\<lambda>db u. if db then (None, db) else (Some ErrOther, db))\<rparr>"

definition sample_request :: request where
  "sample_request =
     \<lparr>room_id = ''0b0e7d2a-5c1f-4e7a-9f53-2d6a8c1e4b90'',
      message_id = ''7c9e6679-7425-40de-944b-e07fc1f90ae7'',
      body = ''hello''\<rparr>"

definition sample_msg :: Message where
  "sample_msg = \<lparr>Kind = KindMessageCreated, Value = MessageCreated ''m1'' ''hello'', RoomID = ''R1''\<rparr>"

text \<open>Room \<open>R1\<close> with three subscribers, the second on a broken connection.\<close>

definition sample_state :: state where
  "sample_state = NewHandler\<lparr>subscribes := [''R1'' \<mapsto> [(0, 0), (1, 1), (2, 2)]],
     broken := {1}, next_conn := 3, next_ctx := 3\<rparr>"

text \<open>
  Two runs of the server: one subscriber going through its whole lifecycle, and two
  subscribers arriving under the two spellings of the room id.
\<close>

definition sample_run :: "bool action list" where
  "sample_run =
     [Subscribe True ''0b0e7d2a-5c1f-4e7a-9f53-2d6a8c1e4b90'' True,
      Run 0, Done 0, Run 0, Run 0, Run 0]"

definition sample_run2 :: "bool action list" where
  "sample_run2 =
     [Subscribe True ''0b0e7d2a-5c1f-4e7a-9f53-2d6a8c1e4b90'' True,
      Run 0,
      Subscribe True ''0b0e7d2a5c1f4e7a9f532d6a8c1e4b90'' True]"

subsection \<open>The invariant of the running server\<close>

text \<open>
  What holds in every state the server can reach: a \<open>handleSubscribe\<close> call owns a
  connection that has been allocated; an entry of the table belongs to the call that
  owns its connection, which is between its two locked sections; such a call has its
  entry in the table under its own room key; a call past the receive has a context
  that is done; and the closed connections are those of the calls that have returned.
\<close>

definition lifecycle_inv :: "system \<Rightarrow> bool" where
  "lifecycle_inv sys =
     ((\<forall>c g. handlers sys c = Some g \<longrightarrow> c < next_conn (st sys))
    \<and> (\<forall>r c x. registered (st sys) r c = Some x \<longrightarrow>
          (\<exists>g. handlers sys c = Some g \<and> g_room g = r \<and> g_ctx g = x
             \<and> (g_pc g = AtWait \<or> g_pc g = AtDeregister)))
    \<and> (\<forall>c g. handlers sys c = Some g \<longrightarrow> g_pc g = AtWait \<or> g_pc g = AtDeregister \<longrightarrow>
          registered (st sys) (g_room g) c = Some (g_ctx g))
    \<and> (\<forall>c g. handlers sys c = Some g \<longrightarrow>
          g_pc g = AtDeregister \<or> g_pc g = AtClose \<or> g_pc g = Returned \<longrightarrow>
          g_ctx g \<in> cancelled (st sys))
    \<and> (\<forall>c. c \<in> closed (st sys) \<longleftrightarrow> (\<exists>g. handlers sys c = Some g \<and> g_pc g = Returned)))"

section \<open>Properties\<close>

subsection \<open>What the delivery loop changes\<close>

lemma notify_loop_frame:
  "subscribes (notify_loop msg xs s) = subscribes s"
  "broken (notify_loop msg xs s) = broken s"
  "closed (notify_loop msg xs s) = closed s"
  "next_conn (notify_loop msg xs s) = next_conn s"
  "next_ctx (notify_loop msg xs s) = next_ctx s"
  by (induction msg xs s rule: notify_loop.induct; simp add: WriteJSON_def CancelFunc_def)+

lemma notify_loop_cancelled:
  "cancelled (notify_loop msg xs s) =
     cancelled s \<union> {x. \<exists>c. (c, x) \<in> set xs \<and> (c \<in> broken s \<or> c \<in> closed s)}"
  by (induction msg xs s rule: notify_loop.induct)
     (auto simp add: WriteJSON_def CancelFunc_def)

lemma notify_loop_sent_count:
  "sent (notify_loop msg xs s) c =
     (if c \<in> broken s \<or> c \<in> closed s then sent s c
      else sent s c @ replicate (count_list (map fst xs) c) (marshal msg))"
proof (induction xs arbitrary: s)
  case Nil
  then show ?case by simp
next
  case (Cons p xs)
  obtain c' x where p: "p = (c', x)" by (cases p)
  show ?case
    unfolding p
    by (simp add: Cons.IH WriteJSON_def CancelFunc_def replicate_app_Cons_same)
qed

lemma notify_loop_sent_other:
  "c \<notin> fst ` set xs \<Longrightarrow> sent (notify_loop msg xs s) c = sent s c"
  by (simp add: notify_loop_sent_count)

lemma count_list_distinct:
  "distinct ys \<Longrightarrow> y \<in> set ys \<Longrightarrow> count_list ys y = 1"
  by (induction ys) auto

lemma notify_loop_sent:
  assumes "distinct (map fst xs)" and "c \<in> fst ` set xs"
  shows "sent (notify_loop msg xs s) c =
     (if c \<in> broken s \<or> c \<in> closed s then sent s c else sent s c @ [marshal msg])"
proof -
  from assms have "count_list (map fst xs) c = 1"
    by (simp add: count_list_distinct)
  then show ?thesis by (simp add: notify_loop_sent_count)
qed

subsection \<open>Broadcast\<close>

text \<open>
  Claim C1. A broadcast to a room in which exactly one subscriber \<open>k\<close> has a failing
  connection calls the cancel function of \<open>k\<close> and no other, writes nothing to \<open>k\<close>,
  appends the encoded event to every other subscriber of the room, writes to no
  connection outside the room and leaves the table as it was. \<open>notifyClients\<close> has no
  result, so there is no error it could hand to its caller: the model is a total
  function from state to state.
\<close>

theorem notifyClients_isolates_failure:
  assumes "subscribes s (RoomID msg) = Some subs"
    and "distinct (map fst subs)"
    and "(k, cancel_k) \<in> set subs"
    and "k \<in> broken s \<or> k \<in> closed s"
    and "\<forall>c \<in> fst ` set subs. c \<noteq> k \<longrightarrow> c \<notin> broken s \<and> c \<notin> closed s"
  shows "cancelled (notifyClients msg s) = insert cancel_k (cancelled s)
       \<and> sent (notifyClients msg s) k = sent s k
       \<and> (\<forall>c \<in> fst ` set subs. c \<noteq> k \<longrightarrow>
            sent (notifyClients msg s) c = sent s c @ [marshal msg])
       \<and> (\<forall>c. c \<notin> fst ` set subs \<longrightarrow> sent (notifyClients msg s) c = sent s c)
       \<and> subscribes (notifyClients msg s) = subscribes s"
proof -
  from assms(3) have ne: "subs \<noteq> []" by auto
  with assms(1) have nc: "notifyClients msg s = notify_loop msg subs s"
    by (simp add: notifyClients_def)
  have "{x. \<exists>c. (c, x) \<in> set subs \<and> (c \<in> broken s \<or> c \<in> closed s)} = {cancel_k}"
  proof (rule set_eqI, rule iffI)
    fix x assume "x \<in> {x. \<exists>c. (c, x) \<in> set subs \<and> (c \<in> broken s \<or> c \<in> closed s)}"
    then obtain c where c: "(c, x) \<in> set subs" "c \<in> broken s \<or> c \<in> closed s" by blast
    from c(1) have "c \<in> fst ` set subs" by force
    with c(2) assms(5) have "c = k" by blast
    with c(1) assms(2,3) have "x = cancel_k"
      by (meson eq_key_imp_eq_value)
    then show "x \<in> {cancel_k}" by simp
  next
    fix x assume "x \<in> {cancel_k}"
    with assms(3,4) show "x \<in> {x. \<exists>c. (c, x) \<in> set subs \<and> (c \<in> broken s \<or> c \<in> closed s)}"
      by blast
  qed
  then have 1: "cancelled (notifyClients msg s) = insert cancel_k (cancelled s)"
    by (simp add: nc notify_loop_cancelled)
  from assms(3) have "k \<in> fst ` set subs" by force
  with assms(2,4) have 2: "sent (notifyClients msg s) k = sent s k"
    by (simp add: nc notify_loop_sent)
  from assms(2,5) have 3: "\<forall>c \<in> fst ` set subs. c \<noteq> k \<longrightarrow>
      sent (notifyClients msg s) c = sent s c @ [marshal msg]"
    by (simp add: nc notify_loop_sent)
  have 4: "\<forall>c. c \<notin> fst ` set subs \<longrightarrow> sent (notifyClients msg s) c = sent s c"
    by (simp add: nc notify_loop_sent_other)
  have 5: "subscribes (notifyClients msg s) = subscribes s"
    by (simp add: nc notify_loop_frame)
  from 1 2 3 4 5 show ?thesis by blast
qed

text \<open>
  Three subscribers of room \<open>R1\<close>, the second broken: only context 1 is cancelled and
  connections 0 and 2 receive the event.
\<close>

theorem notifyClients_isolates_failure_witness:
  "cancelled (notifyClients sample_msg sample_state) = {1}
   \<and> sent (notifyClients sample_msg sample_state) 1 = []
   \<and> sent (notifyClients sample_msg sample_state) 0 = [marshal sample_msg]
   \<and> sent (notifyClients sample_msg sample_state) 2 = [marshal sample_msg]
   \<and> subscribes (notifyClients sample_msg sample_state) = subscribes sample_state"
  using notifyClients_isolates_failure
    [of sample_state sample_msg "[(0, 0), (1, 1), (2, 2)]" 1 1]
  by (simp add: sample_state_def sample_msg_def NewHandler_def)

text \<open>
  Claim C6. When the room of the event has no entry in the table, or an entry with no
  subscribers, \<open>notifyClients\<close> leaves the whole state as it was: nothing is written,
  nothing is cancelled, the table is untouched.
\<close>

theorem notifyClients_empty_noop:
  "subscribes s (RoomID msg) = None \<or> subscribes s (RoomID msg) = Some [] \<Longrightarrow>
     notifyClients msg s = s"
  by (auto simp add: notifyClients_def)

text \<open>The empty table, and a table whose entry for \<open>R1\<close> is empty.\<close>

theorem notifyClients_empty_noop_witness:
  "notifyClients sample_msg NewHandler = NewHandler
   \<and> notifyClients sample_msg (NewHandler\<lparr>subscribes := [''R1'' \<mapsto> []]\<rparr>)
       = NewHandler\<lparr>subscribes := [''R1'' \<mapsto> []]\<rparr>"
  using notifyClients_empty_noop [of NewHandler sample_msg]
    notifyClients_empty_noop [of "NewHandler\<lparr>subscribes := [''R1'' \<mapsto> []]\<rparr>" sample_msg]
  by (simp add: sample_msg_def NewHandler_def)

subsection \<open>Deregistration\<close>

lemma registered_Deregister:
  "registered (Deregister r c s) r' c' = (if r' = r \<and> c' = c then None else registered s r' c')"
  by (auto simp add: registered_def Deregister_def delete_conv' split: option.splits)

text \<open>
  Claim C7. Removing a connection that is not in the room's set leaves the state
  unchanged, also when the room has no set at all; removing the same connection a
  second time changes nothing more.
\<close>

theorem Deregister_idempotent:
  "(registered s r c = None \<longrightarrow> Deregister r c s = s)
   \<and> (subscribes s r = None \<longrightarrow> Deregister r c s = s)
   \<and> Deregister r c (Deregister r c s) = Deregister r c s"
proof -
  have a: "Deregister r c s = s" if "registered s r c = None"
  proof (cases "subscribes s r")
    case None
    then show ?thesis by (simp add: Deregister_def)
  next
    case (Some m)
    with that have "map_of m c = None" by (simp add: registered_def)
    then have "c \<notin> fst ` set m" by (simp add: map_of_eq_None_iff)
    then have "AList.delete c m = m" by simp
    with Some show ?thesis by (simp add: Deregister_def map_upd_triv)
  qed
  have b: "Deregister r c s = s" if "subscribes s r = None"
    using that by (simp add: Deregister_def)
  have c: "Deregister r c (Deregister r c s) = Deregister r c s"
    by (cases "subscribes s r") (simp_all add: Deregister_def delete_idem)
  from a b c show ?thesis by blast
qed

text \<open>
  A connection never registered, a room without a set, and connection 0 of room
  \<open>R1\<close> removed twice.
\<close>

theorem Deregister_idempotent_witness:
  "Deregister ''R1'' 7 sample_state = sample_state
   \<and> Deregister ''R2'' 0 sample_state = sample_state
   \<and> Deregister ''R1'' 0 (Deregister ''R1'' 0 sample_state) = Deregister ''R1'' 0 sample_state
   \<and> registered sample_state ''R1'' 0 = Some 0
   \<and> registered (Deregister ''R1'' 0 sample_state) ''R1'' 0 = None"
  using Deregister_idempotent [of sample_state "''R1''" 7]
    Deregister_idempotent [of sample_state "''R2''" 0]
    Deregister_idempotent [of sample_state "''R1''" 0]
  by (simp add: sample_state_def NewHandler_def registered_def Deregister_def)

subsection \<open>Wire format of the events\<close>

lemma handleMarkMessageAsAnswer_events:
  "e \<in> set (snd (snd (handleMarkMessageAsAnswer l q r db))) \<longrightarrow>
     field_names (marshal_any (Value e)) = [''id'', ''message'']"
  by (simp add: handleMarkMessageAsAnswer_def Let_def
      split: option.split prod.split sum.split)

text \<open>
  Claim C2. The claim says that the value of a \<open>message_answered\<close> event has the one
  field \<open>id\<close>. The handler builds the value as \<open>MessageCreated{ID: ...}\<close>, so the
  encoded value has the two fields \<open>id\<close> and \<open>message\<close>, the latter the empty string
  (by the lemma above, on every run that broadcasts). The struct \<open>MessageAnswered\<close>,
  which would encode to the single field \<open>id\<close>, is declared and never used. Below:
  the handler run on the sample request with a store that accepts the write.
\<close>

theorem handleMarkMessageAsAnswer_payload:
  "handleMarkMessageAsAnswer sample_lib sample_q sample_request True =
     (Header 204, True,
      [\<lparr>Kind = ''message_answered'',
        Value = MessageCreated ''7c9e6679-7425-40de-944b-e07fc1f90ae7'' [],
        RoomID = ''0b0e7d2a-5c1f-4e7a-9f53-2d6a8c1e4b90''\<rparr>])
   \<and> map (\<lambda>e. field_names (marshal_any (Value e)))
        (snd (snd (handleMarkMessageAsAnswer sample_lib sample_q sample_request True)))
      = [[''id'', ''message'']]
   \<and> field_names (marshal_any (MessageAnswered ''7c9e6679-7425-40de-944b-e07fc1f90ae7'')) = [''id'']"
  by (simp add: handleMarkMessageAsAnswer_def sample_lib_def sample_q_def sample_request_def
      StatusNoContent_def KindMessageAnswered_def)

text \<open>
  What the handlers put on the wire, for every input: the encoding of each event they
  start a broadcast for, with its kind string and the fields of its value.
\<close>

lemma handleCreateRoomMessages_frame:
  "e \<in> set (snd (snd (handleCreateRoomMessages l q r db))) \<longrightarrow>
     (\<exists>ident message. marshal e =
        JObject [(''kind'', JString ''message_created''),
                 (''value'', JObject [(''id'', JString ident), (''message'', JString message)])])"
  by (simp add: handleCreateRoomMessages_def Let_def marshal_def KindMessageCreated_def
      split: option.split prod.split sum.split)

lemma handleReactToMessage_frame:
  "e \<in> set (snd (snd (handleReactToMessage l q r db))) \<longrightarrow>
     (\<exists>ident n. marshal e =
        JObject [(''kind'', JString ''message_reaction_increased''),
                 (''value'', JObject [(''id'', JString ident), (''react_count'', JNumber n)])])"
  by (simp add: handleReactToMessage_def Let_def marshal_def KindMessageReactionIncreased_def
      split: option.split prod.split sum.split)

lemma handleRemoveReactFromMessage_frame:
  "e \<in> set (snd (snd (handleRemoveReactFromMessage l q r db))) \<longrightarrow>
     (\<exists>ident n. marshal e =
        JObject [(''kind'', JString ''message_reaction_decreased''),
                 (''value'', JObject [(''id'', JString ident), (''react_count'', JNumber n)])])"
  by (simp add: handleRemoveReactFromMessage_def Let_def marshal_def
      KindMessageReactionDecreased_def split: option.split prod.split sum.split)

lemma handleMarkMessageAsAnswer_frame:
  "e \<in> set (snd (snd (handleMarkMessageAsAnswer l q r db))) \<longrightarrow>
     (\<exists>ident. marshal e =
        JObject [(''kind'', JString ''message_answered''),
                 (''value'', JObject [(''id'', JString ident), (''message'', JString [])])])"
  by (simp add: handleMarkMessageAsAnswer_def Let_def marshal_def KindMessageAnswered_def
      split: option.split prod.split sum.split)

text \<open>The routing key is not part of the encoding.\<close>

lemma marshal_ignores_RoomID: "marshal (msg\<lparr>RoomID := r'\<rparr>) = marshal msg"
  by (simp add: marshal_def)

text \<open>A healthy subscriber of the event's room receives exactly the encoding, once.\<close>

lemma notifyClients_delivers_frame:
  assumes "subscribes s (RoomID msg) = Some subs" and "distinct (map fst subs)"
    and "c \<in> fst ` set subs" and "c \<notin> broken s" and "c \<notin> closed s"
  shows "sent (notifyClients msg s) c = sent s c @ [marshal msg]"
proof -
  from assms(3) have "subs \<noteq> []" by auto
  with assms(1) have "notifyClients msg s = notify_loop msg subs s"
    by (simp add: notifyClients_def)
  with assms(2-5) show ?thesis by (simp add: notify_loop_sent)
qed

text \<open>
  Claim C3. The claim says that every frame a subscriber receives is
  \<open>{"kind": k, "value": v}\<close> with \<open>k\<close> one of the four kind strings and \<open>v\<close> the
  payload of that kind, without the room id. For three kinds the code does so, and the
  room id is never encoded (the lemmas above). For \<open>message_answered\<close> the payload of
  the kind is the single field \<open>id\<close>, but the frame the code delivers has the value
  fields \<open>id\<close> and \<open>message\<close>: the handler fills \<open>Value\<close> with a \<open>MessageCreated\<close>
  literal (the defect of claim C2). Below, the sample request is handled by a store that
  accepts the write, and the event is broadcast to a subscriber of the room: the frame
  received, and next to it the frame that the declared \<open>MessageAnswered\<close> struct would
  give.
\<close>

theorem message_answered_frame:
  "map (\<lambda>e. sent (notifyClients e
          (Register ''0b0e7d2a-5c1f-4e7a-9f53-2d6a8c1e4b90'' 0 0 NewHandler)) 0)
       (snd (snd (handleMarkMessageAsAnswer sample_lib sample_q sample_request True)))
     = [[JObject [(''kind'', JString ''message_answered''),
                  (''value'', JObject [(''id'', JString ''7c9e6679-7425-40de-944b-e07fc1f90ae7''),
                                       (''message'', JString [])])]]]
   \<and> marshal \<lparr>Kind = KindMessageAnswered,
               Value = MessageAnswered ''7c9e6679-7425-40de-944b-e07fc1f90ae7'',
               RoomID = ''0b0e7d2a-5c1f-4e7a-9f53-2d6a8c1e4b90''\<rparr>
     = JObject [(''kind'', JString ''message_answered''),
                (''value'', JObject [(''id'', JString ''7c9e6679-7425-40de-944b-e07fc1f90ae7'')])]
   \<and> JObject [(''kind'', JString ''message_answered''),
               (''value'', JObject [(''id'', JString ''7c9e6679-7425-40de-944b-e07fc1f90ae7''),
                                    (''message'', JString [])])]
     \<noteq> JObject [(''kind'', JString ''message_answered''),
                (''value'', JObject [(''id'', JString ''7c9e6679-7425-40de-944b-e07fc1f90ae7'')])]"
  by (simp add: handleMarkMessageAsAnswer_def sample_lib_def sample_q_def sample_request_def
      KindMessageAnswered_def marshal_def notifyClients_def WriteJSON_def Register_def
      NewHandler_def)

subsection \<open>Refusal of a subscription\<close>

text \<open>
  Claim C5. When the room id parses and \<open>GetRoom\<close> reports \<open>ErrNoRows\<close>,
  \<open>handleSubscribe\<close> answers \<open>room not found\<close> with status 400 and returns with the
  state exactly as it found it, whatever the upgrade would have done: no connection is
  allocated, no context created, the table is unchanged, and no call is left running.
\<close>

theorem handleSubscribe_room_not_found:
  "uuid_Parse l rawRoomID = Some roomID \<Longrightarrow> GetRoom q db roomID = Some ErrNoRows \<Longrightarrow>
     handleSubscribe_begin l q db rawRoomID ok s =
       (Inl (Error ''room not found'' StatusBadRequest), s)
     \<and> 400 \<le> StatusBadRequest \<and> StatusBadRequest < 500
     \<and> step l q (Subscribe db rawRoomID ok) sys = sys"
  by (simp add: handleSubscribe_begin_def StatusBadRequest_def)

text \<open>The sample store does not know room 2.\<close>

theorem handleSubscribe_room_not_found_witness:
  "uuid_Parse sample_lib ''7c9e6679-7425-40de-944b-e07fc1f90ae7'' = Some 2
   \<and> GetRoom sample_q True 2 = Some ErrNoRows
   \<and> handleSubscribe_begin sample_lib sample_q True ''7c9e6679-7425-40de-944b-e07fc1f90ae7''
        True sample_state = (Inl (Error ''room not found'' 400), sample_state)
   \<and> step sample_lib sample_q (Subscribe True ''7c9e6679-7425-40de-944b-e07fc1f90ae7'' True)
        \<lparr>st = sample_state, handlers = Map.empty\<rparr> = \<lparr>st = sample_state, handlers = Map.empty\<rparr>"
  using handleSubscribe_room_not_found [of sample_lib "''7c9e6679-7425-40de-944b-e07fc1f90ae7''" 2
      sample_q True True sample_state "\<lparr>st = sample_state, handlers = Map.empty\<rparr>"]
  by (simp add: sample_lib_def sample_q_def StatusBadRequest_def)

subsection \<open>When the handlers broadcast\<close>




subsection \<open>The key of the table\<close>

lemma update_fresh: "c \<notin> fst ` set m \<Longrightarrow> AList.update c x m = m @ [(c, x)]"
  by (induction m) auto

lemma Register_fields:
  "broken (Register r c x s) = broken s"
  "closed (Register r c x s) = closed s"
  "sent (Register r c x s) = sent s"
  "cancelled (Register r c x s) = cancelled s"
  "next_conn (Register r c x s) = next_conn s"
  "next_ctx (Register r c x s) = next_ctx s"
  by (simp_all add: Register_def Let_def)

lemma notifyClients_after_Register:
  assumes fresh: "\<forall>r. registered s r c = None"
    and healthy: "c \<notin> broken s" "c \<notin> closed s"
  shows "sent (notifyClients msg (Register r1 c x s)) c =
     (if r1 = RoomID msg then sent s c @ [marshal msg] else sent s c)"
proof (cases "r1 = RoomID msg")
  case True
  define m where "m = (case subscribes s r1 of None \<Rightarrow> [] | Some m \<Rightarrow> m)"
  from fresh have "registered s r1 c = None" by blast
  then have "c \<notin> fst ` set m"
    by (cases "subscribes s r1") (simp_all add: m_def registered_def map_of_eq_None_iff)
  then have upd: "AList.update c x m = m @ [(c, x)]" by (rule update_fresh)
  have sub: "subscribes (Register r1 c x s) (RoomID msg) = Some (m @ [(c, x)])"
    using True upd by (simp add: Register_def m_def)
  have "count_list (map fst (m @ [(c, x)])) c = 1"
    using \<open>c \<notin> fst ` set m\<close> by simp
  with sub healthy True show ?thesis
    by (simp add: notifyClients_def notify_loop_sent_count Register_fields)
next
  case False
  then have sub: "subscribes (Register r1 c x s) (RoomID msg) = subscribes s (RoomID msg)"
    by (simp add: Register_def Let_def)
  from fresh have "registered s (RoomID msg) c = None" by blast
  with sub False show ?thesis
    by (cases "subscribes s (RoomID msg)")
       (simp_all add: notifyClients_def registered_def map_of_eq_None_iff
          notify_loop_sent_other Register_fields)
qed

lemma registered_Register:
  "registered (Register r c x s) r' c' = (if r' = r \<and> c' = c then Some x else registered s r' c')"
  by (auto simp add: registered_def Register_def Let_def update_conv' split: option.splits)

lemma handler_events_room:
  "e \<in> set (snd (snd (handleCreateRoomMessages l q r db))) \<longrightarrow> RoomID e = room_id r"
  "e \<in> set (snd (snd (handleReactToMessage l q r db))) \<longrightarrow> RoomID e = room_id r"
  "e \<in> set (snd (snd (handleRemoveReactFromMessage l q r db))) \<longrightarrow> RoomID e = room_id r"
  "e \<in> set (snd (snd (handleMarkMessageAsAnswer l q r db))) \<longrightarrow> RoomID e = room_id r"
  by (simp_all add: handleCreateRoomMessages_def handleReactToMessage_def
      handleRemoveReactFromMessage_def handleMarkMessageAsAnswer_def Let_def
      split: option.split prod.split sum.split)

lemma Subscribe_then_Run:
  assumes "handleSubscribe_begin l q db raw ok (st sys) = (Inr (c, x), s')"
  shows "registered (st (step l q (Run c) (step l q (Subscribe db raw ok) sys))) raw c = Some x"
  using assms by (simp add: handleSubscribe_step_def registered_Register)

text \<open>
  Claim C10. A connection registered under the raw string \<open>r1\<close> receives a broadcast
  addressed to \<open>r2\<close> exactly when the two strings are equal; that both parse to the same
  UUID does not help. \<open>handleSubscribe\<close> registers under the raw \<open>room_id\<close> of its URL,
  and the events of the four handlers are addressed with the raw \<open>room_id\<close> of theirs.
\<close>

theorem registry_keyed_by_raw_string:
  assumes "\<forall>r. registered s r c = None" and "c \<notin> broken s" and "c \<notin> closed s"
  shows "((sent (notifyClients msg (Register r1 c x s)) c = sent s c @ [marshal msg])
            = (r1 = RoomID msg))
     \<and> (r1 \<noteq> RoomID msg \<longrightarrow> sent (notifyClients msg (Register r1 c x s)) c = sent s c)
     \<and> (uuid_Parse l r1 = uuid_Parse l (RoomID msg) \<longrightarrow> r1 \<noteq> RoomID msg \<longrightarrow>
          sent (notifyClients msg (Register r1 c x s)) c = sent s c)
     \<and> (handleSubscribe_begin l q db r1 ok (st sys) = (Inr (c', x'), s') \<longrightarrow>
          registered (st (step l q (Run c') (step l q (Subscribe db r1 ok) sys))) r1 c' = Some x')
     \<and> (\<forall>e \<in> set (snd (snd (handleCreateRoomMessages l q r db)))
             \<union> set (snd (snd (handleReactToMessage l q r db)))
             \<union> set (snd (snd (handleRemoveReactFromMessage l q r db)))
             \<union> set (snd (snd (handleMarkMessageAsAnswer l q r db))).
          RoomID e = room_id r)"
proof -
  note d = notifyClients_after_Register [OF assms, of msg r1 x]
  have 1: "(sent (notifyClients msg (Register r1 c x s)) c = sent s c @ [marshal msg])
            = (r1 = RoomID msg)"
    by (simp add: d)
  have 2: "r1 \<noteq> RoomID msg \<longrightarrow> sent (notifyClients msg (Register r1 c x s)) c = sent s c"
    by (simp add: d)
  have 4: "handleSubscribe_begin l q db r1 ok (st sys) = (Inr (c', x'), s') \<longrightarrow>
      registered (st (step l q (Run c') (step l q (Subscribe db r1 ok) sys))) r1 c' = Some x'"
    by (rule impI) (rule Subscribe_then_Run)
  have 5: "\<forall>e \<in> set (snd (snd (handleCreateRoomMessages l q r db)))
             \<union> set (snd (snd (handleReactToMessage l q r db)))
             \<union> set (snd (snd (handleRemoveReactFromMessage l q r db)))
             \<union> set (snd (snd (handleMarkMessageAsAnswer l q r db))).
          RoomID e = room_id r"
    using handler_events_room [of _ l q r db] by blast
  from 1 2 4 5 show ?thesis by blast
qed

text \<open>
  The hyphenated and the plain spelling of one room id: both parse to UUID 1, and a
  subscriber under the plain spelling receives nothing addressed to the hyphenated one.
\<close>

theorem registry_keyed_by_raw_string_witness:
  "uuid_Parse sample_lib ''0b0e7d2a5c1f4e7a9f532d6a8c1e4b90''
     = uuid_Parse sample_lib ''0b0e7d2a-5c1f-4e7a-9f53-2d6a8c1e4b90''
   \<and> uuid_Parse sample_lib ''0b0e7d2a5c1f4e7a9f532d6a8c1e4b90'' = Some 1
   \<and> sent (notifyClients (sample_msg\<lparr>RoomID := ''0b0e7d2a-5c1f-4e7a-9f53-2d6a8c1e4b90''\<rparr>)
        (Register ''0b0e7d2a5c1f4e7a9f532d6a8c1e4b90'' 0 0 NewHandler)) 0 = sent NewHandler 0
   \<and> sent (notifyClients (sample_msg\<lparr>RoomID := ''0b0e7d2a5c1f4e7a9f532d6a8c1e4b90''\<rparr>)
        (Register ''0b0e7d2a5c1f4e7a9f532d6a8c1e4b90'' 0 0 NewHandler)) 0
       = sent NewHandler 0 @ [marshal (sample_msg\<lparr>RoomID := ''0b0e7d2a5c1f4e7a9f532d6a8c1e4b90''\<rparr>)]
   \<and> registered (st (step sample_lib sample_q (Run 0)
        (step sample_lib sample_q (Subscribe True ''0b0e7d2a5c1f4e7a9f532d6a8c1e4b90'' True) init)))
        ''0b0e7d2a5c1f4e7a9f532d6a8c1e4b90'' 0 = Some 0
   \<and> RoomID (hd (snd (snd (handleCreateRoomMessages sample_lib sample_q sample_request True))))
       = ''0b0e7d2a-5c1f-4e7a-9f53-2d6a8c1e4b90''"
proof -
  have fresh: "\<forall>r. registered NewHandler r 0 = None" "0 \<notin> broken NewHandler"
    "0 \<notin> closed NewHandler"
    by (simp_all add: registered_def NewHandler_def)
  have p: "uuid_Parse sample_lib ''0b0e7d2a5c1f4e7a9f532d6a8c1e4b90'' = Some 1"
    "uuid_Parse sample_lib ''0b0e7d2a-5c1f-4e7a-9f53-2d6a8c1e4b90'' = Some 1"
    by (simp_all add: sample_lib_def)
  have b: "handleSubscribe_begin sample_lib sample_q True ''0b0e7d2a5c1f4e7a9f532d6a8c1e4b90''
      True (st init) = (Inr (0, 0), NewHandler\<lparr>next_conn := 1, next_ctx := 1\<rparr>)"
    by (simp add: handleSubscribe_begin_def sample_lib_def sample_q_def init_def
        NewHandler_def Upgrade_def WithCancel_def)
  have e: "hd (snd (snd (handleCreateRoomMessages sample_lib sample_q sample_request True)))
      \<in> set (snd (snd (handleCreateRoomMessages sample_lib sample_q sample_request True)))"
    by (simp add: handleCreateRoomMessages_def sample_lib_def sample_q_def sample_request_def)
  note t1 = registry_keyed_by_raw_string [OF fresh,
      where msg = "sample_msg\<lparr>RoomID := ''0b0e7d2a-5c1f-4e7a-9f53-2d6a8c1e4b90''\<rparr>"
        and ?r1.0 = "''0b0e7d2a5c1f4e7a9f532d6a8c1e4b90''" and x = 0 and l = sample_lib
        and q = sample_q and db = True and ok = True and sys = init and c' = 0 and x' = 0
        and s' = "NewHandler\<lparr>next_conn := 1, next_ctx := 1\<rparr>" and r = sample_request]
  note t2 = registry_keyed_by_raw_string [OF fresh,
      where msg = "sample_msg\<lparr>RoomID := ''0b0e7d2a5c1f4e7a9f532d6a8c1e4b90''\<rparr>"
        and ?r1.0 = "''0b0e7d2a5c1f4e7a9f532d6a8c1e4b90''" and x = 0 and l = sample_lib
        and q = sample_q and db = True and ok = True and sys = init and c' = 0 and x' = 0
        and s' = "NewHandler\<lparr>next_conn := 1, next_ctx := 1\<rparr>" and r = sample_request]
  have r: "room_id sample_request = ''0b0e7d2a-5c1f-4e7a-9f53-2d6a8c1e4b90''"
    by (simp add: sample_request_def)
  from t1 have a3: "sent (notifyClients (sample_msg\<lparr>RoomID := ''0b0e7d2a-5c1f-4e7a-9f53-2d6a8c1e4b90''\<rparr>)
        (Register ''0b0e7d2a5c1f4e7a9f532d6a8c1e4b90'' 0 0 NewHandler)) 0 = sent NewHandler 0"
    using p by simp
  from t2 have a4: "sent (notifyClients (sample_msg\<lparr>RoomID := ''0b0e7d2a5c1f4e7a9f532d6a8c1e4b90''\<rparr>)
        (Register ''0b0e7d2a5c1f4e7a9f532d6a8c1e4b90'' 0 0 NewHandler)) 0
       = sent NewHandler 0 @ [marshal (sample_msg\<lparr>RoomID := ''0b0e7d2a5c1f4e7a9f532d6a8c1e4b90''\<rparr>)]"
    by simp
  from t1 b have a5: "registered (st (step sample_lib sample_q (Run 0)
        (step sample_lib sample_q (Subscribe True ''0b0e7d2a5c1f4e7a9f532d6a8c1e4b90'' True) init)))
        ''0b0e7d2a5c1f4e7a9f532d6a8c1e4b90'' 0 = Some 0"
    by simp
  from t1 e r have a6: "RoomID (hd (snd (snd (handleCreateRoomMessages sample_lib sample_q sample_request True))))
       = ''0b0e7d2a-5c1f-4e7a-9f53-2d6a8c1e4b90''"
    by simp
  from p a3 a4 a5 a6 show ?thesis by simp
qed

subsection \<open>The invariant is kept by every step\<close>

lemma registered_cong:
  "subscribes s' = subscribes s \<Longrightarrow> registered s' = registered s"
  by (rule ext)+ (simp add: registered_def)

lemma view_Register [simp]:
  "cancelled (Register r c x s) = cancelled s"
  "closed (Register r c x s) = closed s"
  "next_conn (Register r c x s) = next_conn s"
  by (simp_all add: Register_def Let_def)

lemma view_Deregister [simp]:
  "cancelled (Deregister r c s) = cancelled s"
  "closed (Deregister r c s) = closed s"
  "next_conn (Deregister r c s) = next_conn s"
  by (simp_all add: Deregister_def split: option.split)

lemma view_Close [simp]:
  "registered (Close c s) = registered s"
  "cancelled (Close c s) = cancelled s"
  "closed (Close c s) = insert c (closed s)"
  "next_conn (Close c s) = next_conn s"
  by (rule registered_cong) (simp_all add: Close_def)

lemma view_CancelFunc [simp]:
  "registered (CancelFunc x s) = registered s"
  "cancelled (CancelFunc x s) = insert x (cancelled s)"
  "closed (CancelFunc x s) = closed s"
  "next_conn (CancelFunc x s) = next_conn s"
  by (rule registered_cong) (simp_all add: CancelFunc_def)

lemma notifyClients_frame:
  "subscribes (notifyClients msg s) = subscribes s"
  "closed (notifyClients msg s) = closed s"
  "broken (notifyClients msg s) = broken s"
  "next_conn (notifyClients msg s) = next_conn s"
  "next_ctx (notifyClients msg s) = next_ctx s"
  by (simp_all add: notifyClients_def notify_loop_frame split: option.split)

lemma view_notifyClients [simp]:
  "registered (notifyClients msg s) = registered s"
  "closed (notifyClients msg s) = closed s"
  "next_conn (notifyClients msg s) = next_conn s"
  by (rule registered_cong) (simp_all add: notifyClients_frame)

lemma cancelled_notifyClients: "x \<in> cancelled s \<Longrightarrow> x \<in> cancelled (notifyClients msg s)"
  by (simp add: notifyClients_def notify_loop_cancelled split: option.split)

lemma view_broken [simp]:
  "registered (s\<lparr>broken := b\<rparr>) = registered s"
  by (rule registered_cong) simp

lemma handleSubscribe_begin_cases:
  "(\<exists>resp. handleSubscribe_begin l q db raw ok s = (Inl resp, s))
   \<or> handleSubscribe_begin l q db raw ok s =
       (Inr (next_conn s, next_ctx s),
        s\<lparr>next_conn := Suc (next_conn s), next_ctx := Suc (next_ctx s)\<rparr>)"
  by (simp add: handleSubscribe_begin_def Upgrade_def WithCancel_def split: option.split)

lemma view_alloc [simp]:
  "registered (s\<lparr>next_conn := n, next_ctx := m\<rparr>) = registered s"
  by (rule registered_cong) simp

lemma invD1: "lifecycle_inv sys \<Longrightarrow> handlers sys c = Some g \<Longrightarrow> c < next_conn (st sys)"
  unfolding lifecycle_inv_def by blast

lemma invD2: "lifecycle_inv sys \<Longrightarrow> registered (st sys) r c = Some x \<Longrightarrow>
    \<exists>g. handlers sys c = Some g \<and> g_room g = r \<and> g_ctx g = x
      \<and> (g_pc g = AtWait \<or> g_pc g = AtDeregister)"
  unfolding lifecycle_inv_def by blast

lemma invD3: "lifecycle_inv sys \<Longrightarrow> handlers sys c = Some g \<Longrightarrow>
    g_pc g = AtWait \<or> g_pc g = AtDeregister \<Longrightarrow>
    registered (st sys) (g_room g) c = Some (g_ctx g)"
  unfolding lifecycle_inv_def by blast

lemma invD4: "lifecycle_inv sys \<Longrightarrow> handlers sys c = Some g \<Longrightarrow>
    g_pc g = AtDeregister \<or> g_pc g = AtClose \<or> g_pc g = Returned \<Longrightarrow>
    g_ctx g \<in> cancelled (st sys)"
  unfolding lifecycle_inv_def by blast

lemma invD5: "lifecycle_inv sys \<Longrightarrow>
    c \<in> closed (st sys) \<longleftrightarrow> (\<exists>g. handlers sys c = Some g \<and> g_pc g = Returned)"
  unfolding lifecycle_inv_def by blast

lemma invI:
  assumes "\<And>c g. handlers sys c = Some g \<Longrightarrow> c < next_conn (st sys)"
    and "\<And>r c x. registered (st sys) r c = Some x \<Longrightarrow>
          \<exists>g. handlers sys c = Some g \<and> g_room g = r \<and> g_ctx g = x
             \<and> (g_pc g = AtWait \<or> g_pc g = AtDeregister)"
    and "\<And>c g. handlers sys c = Some g \<Longrightarrow> g_pc g = AtWait \<or> g_pc g = AtDeregister \<Longrightarrow>
          registered (st sys) (g_room g) c = Some (g_ctx g)"
    and "\<And>c g. handlers sys c = Some g \<Longrightarrow>
          g_pc g = AtDeregister \<or> g_pc g = AtClose \<or> g_pc g = Returned \<Longrightarrow>
          g_ctx g \<in> cancelled (st sys)"
    and "\<And>c. c \<in> closed (st sys) \<longleftrightarrow> (\<exists>g. handlers sys c = Some g \<and> g_pc g = Returned)"
  shows "lifecycle_inv sys"
  unfolding lifecycle_inv_def using assms by blast

lemma inv_fresh: "lifecycle_inv sys \<Longrightarrow> handlers sys (next_conn (st sys)) = None"
  using invD1 [of sys "next_conn (st sys)"] by (cases "handlers sys (next_conn (st sys))") auto

lemma inv_Subscribe:
  assumes inv: "lifecycle_inv sys"
  shows "lifecycle_inv (step l q (Subscribe db raw ok) sys)"
proof -
  from handleSubscribe_begin_cases [of l q db raw ok "st sys"]
  consider resp where "handleSubscribe_begin l q db raw ok (st sys) = (Inl resp, st sys)"
    | "handleSubscribe_begin l q db raw ok (st sys) =
        (Inr (next_conn (st sys), next_ctx (st sys)),
         (st sys)\<lparr>next_conn := Suc (next_conn (st sys)), next_ctx := Suc (next_ctx (st sys))\<rparr>)"
    by blast
  then show ?thesis
  proof cases
    case 1
    with inv show ?thesis by simp
  next
    case 2
    define n where "n = next_conn (st sys)"
    define g0 where "g0 = \<lparr>g_room = raw, g_ctx = next_ctx (st sys), g_pc = AtRegister\<rparr>"
    define sys' where "sys' = step l q (Subscribe db raw ok) sys"
    have fresh: "handlers sys n = None"
      unfolding n_def using inv by (rule inv_fresh)
    have H: "handlers sys' = (handlers sys)(n \<mapsto> g0)"
      by (simp add: sys'_def 2 n_def g0_def)
    have R: "registered (st sys') = registered (st sys)"
      by (simp add: sys'_def 2)
    have C: "cancelled (st sys') = cancelled (st sys)" "closed (st sys') = closed (st sys)"
      "next_conn (st sys') = Suc n"
      by (simp_all add: sys'_def 2 n_def)
    have pc0: "g_pc g0 = AtRegister" by (simp add: g0_def)
    have "lifecycle_inv sys'"
    proof (rule invI)
      fix c g assume "handlers sys' c = Some g"
      then show "c < next_conn (st sys')"
        using invD1 [OF inv, of c g] by (auto simp add: H C n_def split: if_splits)
    next
      fix r c x assume "registered (st sys') r c = Some x"
      then have "registered (st sys) r c = Some x" by (simp add: R)
      from invD2 [OF inv this] obtain g where g: "handlers sys c = Some g" "g_room g = r"
        "g_ctx g = x" "g_pc g = AtWait \<or> g_pc g = AtDeregister" by blast
      with fresh have "c \<noteq> n" by auto
      with g show "\<exists>g. handlers sys' c = Some g \<and> g_room g = r \<and> g_ctx g = x
             \<and> (g_pc g = AtWait \<or> g_pc g = AtDeregister)"
        by (simp add: H)
    next
      fix c g assume a: "handlers sys' c = Some g" "g_pc g = AtWait \<or> g_pc g = AtDeregister"
      then have "c \<noteq> n" using pc0 by (auto simp add: H)
      with a have "handlers sys c = Some g" by (simp add: H)
      from invD3 [OF inv this a(2)] show "registered (st sys') (g_room g) c = Some (g_ctx g)"
        by (simp add: R)
    next
      fix c g assume a: "handlers sys' c = Some g"
        "g_pc g = AtDeregister \<or> g_pc g = AtClose \<or> g_pc g = Returned"
      then have "c \<noteq> n" using pc0 by (auto simp add: H)
      with a have "handlers sys c = Some g" by (simp add: H)
      from invD4 [OF inv this a(2)] show "g_ctx g \<in> cancelled (st sys')"
        by (simp add: C)
    next
      fix c
      show "c \<in> closed (st sys') \<longleftrightarrow> (\<exists>g. handlers sys' c = Some g \<and> g_pc g = Returned)"
        using invD5 [OF inv, of c] fresh pc0 by (auto simp add: H C)
    qed
    then show ?thesis by (simp add: sys'_def)
  qed
qed

lemma inv_Notify:
  assumes inv: "lifecycle_inv sys"
  shows "lifecycle_inv (step l q (Notify msg) sys)"
proof (rule invI)
  fix c g assume "handlers (step l q (Notify msg) sys) c = Some g"
  then show "c < next_conn (st (step l q (Notify msg) sys))"
    using invD1 [OF inv, of c g] by simp
next
  fix r c x assume "registered (st (step l q (Notify msg) sys)) r c = Some x"
  then show "\<exists>g. handlers (step l q (Notify msg) sys) c = Some g \<and> g_room g = r \<and> g_ctx g = x
             \<and> (g_pc g = AtWait \<or> g_pc g = AtDeregister)"
    using invD2 [OF inv, of r c x] by simp
next
  fix c g assume "handlers (step l q (Notify msg) sys) c = Some g"
    "g_pc g = AtWait \<or> g_pc g = AtDeregister"
  then show "registered (st (step l q (Notify msg) sys)) (g_room g) c = Some (g_ctx g)"
    using invD3 [OF inv, of c g] by simp
next
  fix c g assume "handlers (step l q (Notify msg) sys) c = Some g"
    "g_pc g = AtDeregister \<or> g_pc g = AtClose \<or> g_pc g = Returned"
  then show "g_ctx g \<in> cancelled (st (step l q (Notify msg) sys))"
    using invD4 [OF inv, of c g] by (simp add: cancelled_notifyClients)
next
  fix c
  show "c \<in> closed (st (step l q (Notify msg) sys)) \<longleftrightarrow>
      (\<exists>g. handlers (step l q (Notify msg) sys) c = Some g \<and> g_pc g = Returned)"
    using invD5 [OF inv, of c] by simp
qed

lemma inv_Done:
  assumes inv: "lifecycle_inv sys"
  shows "lifecycle_inv (step l q (Done x) sys)"
proof (rule invI)
  fix c g assume "handlers (step l q (Done x) sys) c = Some g"
  then show "c < next_conn (st (step l q (Done x) sys))"
    using invD1 [OF inv, of c g] by simp
next
  fix r c y assume "registered (st (step l q (Done x) sys)) r c = Some y"
  then show "\<exists>g. handlers (step l q (Done x) sys) c = Some g \<and> g_room g = r \<and> g_ctx g = y
             \<and> (g_pc g = AtWait \<or> g_pc g = AtDeregister)"
    using invD2 [OF inv, of r c y] by simp
next
  fix c g assume "handlers (step l q (Done x) sys) c = Some g"
    "g_pc g = AtWait \<or> g_pc g = AtDeregister"
  then show "registered (st (step l q (Done x) sys)) (g_room g) c = Some (g_ctx g)"
    using invD3 [OF inv, of c g] by simp
next
  fix c g assume "handlers (step l q (Done x) sys) c = Some g"
    "g_pc g = AtDeregister \<or> g_pc g = AtClose \<or> g_pc g = Returned"
  then show "g_ctx g \<in> cancelled (st (step l q (Done x) sys))"
    using invD4 [OF inv, of c g] by simp
next
  fix c
  show "c \<in> closed (st (step l q (Done x) sys)) \<longleftrightarrow>
      (\<exists>g. handlers (step l q (Done x) sys) c = Some g \<and> g_pc g = Returned)"
    using invD5 [OF inv, of c] by simp
qed

lemma inv_Break:
  assumes inv: "lifecycle_inv sys"
  shows "lifecycle_inv (step l q (Break k) sys)"
proof (rule invI)
  fix c g assume "handlers (step l q (Break k) sys) c = Some g"
  then show "c < next_conn (st (step l q (Break k) sys))"
    using invD1 [OF inv, of c g] by simp
next
  fix r c y assume "registered (st (step l q (Break k) sys)) r c = Some y"
  then show "\<exists>g. handlers (step l q (Break k) sys) c = Some g \<and> g_room g = r \<and> g_ctx g = y
             \<and> (g_pc g = AtWait \<or> g_pc g = AtDeregister)"
    using invD2 [OF inv, of r c y] by simp
next
  fix c g assume "handlers (step l q (Break k) sys) c = Some g"
    "g_pc g = AtWait \<or> g_pc g = AtDeregister"
  then show "registered (st (step l q (Break k) sys)) (g_room g) c = Some (g_ctx g)"
    using invD3 [OF inv, of c g] by simp
next
  fix c g assume "handlers (step l q (Break k) sys) c = Some g"
    "g_pc g = AtDeregister \<or> g_pc g = AtClose \<or> g_pc g = Returned"
  then show "g_ctx g \<in> cancelled (st (step l q (Break k) sys))"
    using invD4 [OF inv, of c g] by simp
next
  fix c
  show "c \<in> closed (st (step l q (Break k) sys)) \<longleftrightarrow>
      (\<exists>g. handlers (step l q (Break k) sys) c = Some g \<and> g_pc g = Returned)"
    using invD5 [OF inv, of c] by simp
qed

lemma Run_unfold:
  "handlers sys k = Some g \<Longrightarrow>
   step l q (Run k) sys =
     (case g_pc g of
        AtRegister \<Rightarrow> \<lparr>st = Register (g_room g) k (g_ctx g) (st sys),
                        handlers = (handlers sys)(k \<mapsto> g\<lparr>g_pc := AtWait\<rparr>)\<rparr>
      | AtWait \<Rightarrow> if g_ctx g \<in> cancelled (st sys)
                   then \<lparr>st = st sys, handlers = (handlers sys)(k \<mapsto> g\<lparr>g_pc := AtDeregister\<rparr>)\<rparr>
                   else sys
      | AtDeregister \<Rightarrow> \<lparr>st = Deregister (g_room g) k (st sys),
                          handlers = (handlers sys)(k \<mapsto> g\<lparr>g_pc := AtClose\<rparr>)\<rparr>
      | AtClose \<Rightarrow> \<lparr>st = Close k (st sys), handlers = (handlers sys)(k \<mapsto> g\<lparr>g_pc := Returned\<rparr>)\<rparr>
      | Returned \<Rightarrow> sys)"
  by (simp add: handleSubscribe_step_def split: pc.split)

lemma inv_Run_register:
  assumes inv: "lifecycle_inv sys" and k: "handlers sys k = Some g0" and pc: "g_pc g0 = AtRegister"
  shows "lifecycle_inv \<lparr>st = Register (g_room g0) k (g_ctx g0) (st sys),
                        handlers = (handlers sys)(k \<mapsto> g0\<lparr>g_pc := AtWait\<rparr>)\<rparr>"
    (is "lifecycle_inv ?sys'")
proof (rule invI)
  fix c g assume "handlers ?sys' c = Some g"
  then show "c < next_conn (st ?sys')"
    using invD1 [OF inv, of c] k by (auto split: if_splits)
next
  fix r c x assume a: "registered (st ?sys') r c = Some x"
  show "\<exists>g. handlers ?sys' c = Some g \<and> g_room g = r \<and> g_ctx g = x
             \<and> (g_pc g = AtWait \<or> g_pc g = AtDeregister)"
  proof (cases "r = g_room g0 \<and> c = k")
    case True
    with a show ?thesis by (simp add: registered_Register)
  next
    case False
    with a have "registered (st sys) r c = Some x" by (simp add: registered_Register)
    from invD2 [OF inv this] obtain g where g: "handlers sys c = Some g" "g_room g = r"
      "g_ctx g = x" "g_pc g = AtWait \<or> g_pc g = AtDeregister" by blast
    with k pc have "c \<noteq> k" by auto
    with g show ?thesis by simp
  qed
next
  fix c g assume a: "handlers ?sys' c = Some g" "g_pc g = AtWait \<or> g_pc g = AtDeregister"
  show "registered (st ?sys') (g_room g) c = Some (g_ctx g)"
  proof (cases "c = k")
    case True
    with a show ?thesis by (auto simp add: registered_Register)
  next
    case False
    with a have "handlers sys c = Some g" by simp
    from invD3 [OF inv this a(2)] False show ?thesis by (simp add: registered_Register)
  qed
next
  fix c g assume a: "handlers ?sys' c = Some g"
    "g_pc g = AtDeregister \<or> g_pc g = AtClose \<or> g_pc g = Returned"
  then have "c \<noteq> k" by auto
  with a have "handlers sys c = Some g" by simp
  from invD4 [OF inv this a(2)] show "g_ctx g \<in> cancelled (st ?sys')" by simp
next
  fix c
  show "c \<in> closed (st ?sys') \<longleftrightarrow> (\<exists>g. handlers ?sys' c = Some g \<and> g_pc g = Returned)"
    using invD5 [OF inv, of c] k pc by auto
qed

lemma inv_Run_wake:
  assumes inv: "lifecycle_inv sys" and k: "handlers sys k = Some g0" and pc: "g_pc g0 = AtWait"
    and fired: "g_ctx g0 \<in> cancelled (st sys)"
  shows "lifecycle_inv \<lparr>st = st sys, handlers = (handlers sys)(k \<mapsto> g0\<lparr>g_pc := AtDeregister\<rparr>)\<rparr>"
    (is "lifecycle_inv ?sys'")
proof (rule invI)
  fix c g assume "handlers ?sys' c = Some g"
  then show "c < next_conn (st ?sys')"
    using invD1 [OF inv, of c] k by (auto split: if_splits)
next
  fix r c x assume a: "registered (st ?sys') r c = Some x"
  then have "registered (st sys) r c = Some x" by simp
  from invD2 [OF inv this] obtain g where g: "handlers sys c = Some g" "g_room g = r"
    "g_ctx g = x" "g_pc g = AtWait \<or> g_pc g = AtDeregister" by blast
  with k show "\<exists>g. handlers ?sys' c = Some g \<and> g_room g = r \<and> g_ctx g = x
             \<and> (g_pc g = AtWait \<or> g_pc g = AtDeregister)"
    by (cases "c = k") auto
next
  fix c g assume a: "handlers ?sys' c = Some g" "g_pc g = AtWait \<or> g_pc g = AtDeregister"
  show "registered (st ?sys') (g_room g) c = Some (g_ctx g)"
  proof (cases "c = k")
    case True
    with a invD3 [OF inv k] pc show ?thesis by auto
  next
    case False
    with a have "handlers sys c = Some g" by simp
    from invD3 [OF inv this a(2)] show ?thesis by simp
  qed
next
  fix c g assume a: "handlers ?sys' c = Some g"
    "g_pc g = AtDeregister \<or> g_pc g = AtClose \<or> g_pc g = Returned"
  show "g_ctx g \<in> cancelled (st ?sys')"
  proof (cases "c = k")
    case True
    with a fired show ?thesis by auto
  next
    case False
    with a have "handlers sys c = Some g" by simp
    from invD4 [OF inv this a(2)] show ?thesis by simp
  qed
next
  fix c
  show "c \<in> closed (st ?sys') \<longleftrightarrow> (\<exists>g. handlers ?sys' c = Some g \<and> g_pc g = Returned)"
    using invD5 [OF inv, of c] k pc by auto
qed

lemma inv_Run_deregister:
  assumes inv: "lifecycle_inv sys" and k: "handlers sys k = Some g0" and pc: "g_pc g0 = AtDeregister"
  shows "lifecycle_inv \<lparr>st = Deregister (g_room g0) k (st sys),
                        handlers = (handlers sys)(k \<mapsto> g0\<lparr>g_pc := AtClose\<rparr>)\<rparr>"
    (is "lifecycle_inv ?sys'")
proof (rule invI)
  fix c g assume "handlers ?sys' c = Some g"
  then show "c < next_conn (st ?sys')"
    using invD1 [OF inv, of c] k by (auto split: if_splits)
next
  fix r c x assume a: "registered (st ?sys') r c = Some x"
  then have ne: "\<not> (r = g_room g0 \<and> c = k)" and "registered (st sys) r c = Some x"
    by (auto simp add: registered_Deregister split: if_splits)
  from invD2 [OF inv this(2)] obtain g where g: "handlers sys c = Some g" "g_room g = r"
    "g_ctx g = x" "g_pc g = AtWait \<or> g_pc g = AtDeregister" by blast
  with k ne have "c \<noteq> k" by auto
  with g show "\<exists>g. handlers ?sys' c = Some g \<and> g_room g = r \<and> g_ctx g = x
             \<and> (g_pc g = AtWait \<or> g_pc g = AtDeregister)"
    by simp
next
  fix c g assume a: "handlers ?sys' c = Some g" "g_pc g = AtWait \<or> g_pc g = AtDeregister"
  then have ne: "c \<noteq> k" by auto
  with a have "handlers sys c = Some g" by simp
  from invD3 [OF inv this a(2)] ne show "registered (st ?sys') (g_room g) c = Some (g_ctx g)"
    by (simp add: registered_Deregister)
next
  fix c g assume a: "handlers ?sys' c = Some g"
    "g_pc g = AtDeregister \<or> g_pc g = AtClose \<or> g_pc g = Returned"
  show "g_ctx g \<in> cancelled (st ?sys')"
  proof (cases "c = k")
    case True
    with a invD4 [OF inv k] pc show ?thesis by auto
  next
    case False
    with a have "handlers sys c = Some g" by simp
    from invD4 [OF inv this a(2)] show ?thesis by simp
  qed
next
  fix c
  show "c \<in> closed (st ?sys') \<longleftrightarrow> (\<exists>g. handlers ?sys' c = Some g \<and> g_pc g = Returned)"
    using invD5 [OF inv, of c] k pc by auto
qed

lemma inv_Run_close:
  assumes inv: "lifecycle_inv sys" and k: "handlers sys k = Some g0" and pc: "g_pc g0 = AtClose"
  shows "lifecycle_inv \<lparr>st = Close k (st sys),
                        handlers = (handlers sys)(k \<mapsto> g0\<lparr>g_pc := Returned\<rparr>)\<rparr>"
    (is "lifecycle_inv ?sys'")
proof (rule invI)
  fix c g assume "handlers ?sys' c = Some g"
  then show "c < next_conn (st ?sys')"
    using invD1 [OF inv, of c] k by (auto split: if_splits)
next
  fix r c x assume a: "registered (st ?sys') r c = Some x"
  then have "registered (st sys) r c = Some x" by simp
  from invD2 [OF inv this] obtain g where g: "handlers sys c = Some g" "g_room g = r"
    "g_ctx g = x" "g_pc g = AtWait \<or> g_pc g = AtDeregister" by blast
  with k pc have "c \<noteq> k" by auto
  with g show "\<exists>g. handlers ?sys' c = Some g \<and> g_room g = r \<and> g_ctx g = x
             \<and> (g_pc g = AtWait \<or> g_pc g = AtDeregister)"
    by simp
next
  fix c g assume a: "handlers ?sys' c = Some g" "g_pc g = AtWait \<or> g_pc g = AtDeregister"
  then have ne: "c \<noteq> k" by auto
  with a have "handlers sys c = Some g" by simp
  from invD3 [OF inv this a(2)] show "registered (st ?sys') (g_room g) c = Some (g_ctx g)"
    by simp
next
  fix c g assume a: "handlers ?sys' c = Some g"
    "g_pc g = AtDeregister \<or> g_pc g = AtClose \<or> g_pc g = Returned"
  show "g_ctx g \<in> cancelled (st ?sys')"
  proof (cases "c = k")
    case True
    with a invD4 [OF inv k] pc show ?thesis by auto
  next
    case False
    with a have "handlers sys c = Some g" by simp
    from invD4 [OF inv this a(2)] show ?thesis by simp
  qed
next
  fix c
  show "c \<in> closed (st ?sys') \<longleftrightarrow> (\<exists>g. handlers ?sys' c = Some g \<and> g_pc g = Returned)"
    using invD5 [OF inv, of c] k pc by auto
qed

lemma inv_Run:
  assumes inv: "lifecycle_inv sys"
  shows "lifecycle_inv (step l q (Run k) sys)"
proof (cases "handlers sys k")
  case None
  with inv show ?thesis by simp
next
  case (Some g0)
  show ?thesis
  proof (cases "g_pc g0")
    case AtRegister
    with inv_Run_register [OF inv Some] show ?thesis by (simp add: Run_unfold [OF Some] del: step.simps)
  next
    case AtWait
    with inv_Run_wake [OF inv Some] inv show ?thesis by (simp add: Run_unfold [OF Some] del: step.simps)
  next
    case AtDeregister
    with inv_Run_deregister [OF inv Some] show ?thesis by (simp add: Run_unfold [OF Some] del: step.simps)
  next
    case AtClose
    with inv_Run_close [OF inv Some] show ?thesis by (simp add: Run_unfold [OF Some] del: step.simps)
  next
    case Returned
    with inv show ?thesis by (simp add: Run_unfold [OF Some] del: step.simps)
  qed
qed

lemma inv_step: "lifecycle_inv sys \<Longrightarrow> lifecycle_inv (step l q a sys)"
  by (cases a) (simp_all only: inv_Subscribe inv_Run inv_Notify inv_Done inv_Break)

lemma inv_init: "lifecycle_inv init"
  by (rule invI) (simp_all add: init_def NewHandler_def registered_def)

lemma inv_foldl: "lifecycle_inv sys \<Longrightarrow> lifecycle_inv (foldl (\<lambda>sys a. step l q a sys) sys acts)"
  by (induction acts arbitrary: sys) (simp_all add: inv_step)

lemma inv_exec: "lifecycle_inv (exec l q acts)"
  unfolding exec_def by (rule inv_foldl) (rule inv_init)

lemma exec_snoc: "exec l q (acts @ [a]) = step l q a (exec l q acts)"
  by (simp add: exec_def)

subsection \<open>Phases of a subscription\<close>

lemma phase_step_other:
  "handlers (step l q a sys) c = handlers sys c \<Longrightarrow> phase (step l q a sys) c = phase sys c"
  by (simp add: phase_def)

lemma handlers_Subscribe:
  "handlers (step l q (Subscribe db raw ok) sys) c = handlers sys c
   \<or> (c = next_conn (st sys) \<and> (\<exists>g. handlers (step l q (Subscribe db raw ok) sys) c = Some g
        \<and> g_pc g = AtRegister))"
  using handleSubscribe_begin_cases [of l q db raw ok "st sys"]
  by (auto split: if_splits)

lemma phase_step:
  assumes inv: "lifecycle_inv sys"
  shows "phase (step l q a sys) c = phase sys c \<or> phase (step l q a sys) c = Suc (phase sys c)"
proof (cases a)
  case (Subscribe db raw ok)
  from handlers_Subscribe [of l q db raw ok sys c] inv_fresh [OF inv]
  show ?thesis unfolding Subscribe by (auto simp add: phase_def simp del: step.simps)
next
  case (Run k)
  show ?thesis
  proof (cases "handlers sys k")
    case None
    then show ?thesis by (simp add: Run)
  next
    case (Some g)
    show ?thesis
      unfolding Run Run_unfold [OF Some]
      using Some by (cases "g_pc g") (auto simp add: phase_def)
  qed
qed (simp_all add: phase_def)

lemma phase_blocked:
  assumes inv: "lifecycle_inv sys" and g: "handlers sys c = Some g" "g_pc g = AtWait"
    and nd: "g_ctx g \<notin> cancelled (st sys)"
  shows "phase (step l q a sys) c = 2"
proof (cases a)
  case (Subscribe db raw ok)
  from handlers_Subscribe [of l q db raw ok sys c] inv_fresh [OF inv] g
  show ?thesis unfolding Subscribe by (auto simp add: phase_def simp del: step.simps)
next
  case (Run k)
  show ?thesis
  proof (cases "handlers sys k")
    case None
    with g show ?thesis by (simp add: Run phase_def)
  next
    case (Some g')
    show ?thesis
      unfolding Run Run_unfold [OF Some]
      using Some g nd by (cases "g_pc g'") (auto simp add: phase_def)
  qed
qed (use g in \<open>simp_all add: phase_def\<close>)

lemma pc_rank_pos: "pc_rank p \<noteq> 0" by (cases p) simp_all
lemma pc_rank_1: "pc_rank p = Suc 0 \<longleftrightarrow> p = AtRegister" by (cases p) simp_all
lemma pc_rank_2: "pc_rank p = 2 \<longleftrightarrow> p = AtWait" by (cases p) simp_all
lemma pc_rank_3: "pc_rank p = 3 \<longleftrightarrow> p = AtDeregister" by (cases p) simp_all
lemma pc_rank_4: "pc_rank p = 4 \<longleftrightarrow> p = AtClose" by (cases p) simp_all
lemma pc_rank_5: "pc_rank p = 5 \<longleftrightarrow> p = Returned" by (cases p) simp_all
lemma pc_rank_le1: "pc_rank p \<le> Suc 0 \<longleftrightarrow> p = AtRegister" by (cases p) simp_all
lemma pc_rank_ge3: "3 \<le> pc_rank p \<longleftrightarrow> p = AtDeregister \<or> p = AtClose \<or> p = Returned"
  by (cases p) simp_all
lemma pc_rank_ge4: "4 \<le> pc_rank p \<longleftrightarrow> p = AtClose \<or> p = Returned"
  by (cases p) simp_all

lemmas pc_rank_iff = pc_rank_pos pc_rank_1 pc_rank_2 pc_rank_3 pc_rank_4 pc_rank_5
  pc_rank_le1 pc_rank_ge3 pc_rank_ge4

lemma phase_0: "phase sys c = 0 \<longleftrightarrow> handlers sys c = None"
  by (cases "handlers sys c") (simp_all add: phase_def pc_rank_iff)

lemma phase_le1: "phase sys c \<le> Suc 0 \<longleftrightarrow>
    handlers sys c = None \<or> (\<exists>g. handlers sys c = Some g \<and> g_pc g = AtRegister)"
  by (cases "handlers sys c") (simp_all add: phase_def pc_rank_iff)

lemma phase_2: "phase sys c = 2 \<longleftrightarrow> (\<exists>g. handlers sys c = Some g \<and> g_pc g = AtWait)"
  by (cases "handlers sys c") (simp_all add: phase_def pc_rank_iff)

lemma phase_3: "phase sys c = 3 \<longleftrightarrow> (\<exists>g. handlers sys c = Some g \<and> g_pc g = AtDeregister)"
  by (cases "handlers sys c") (simp_all add: phase_def pc_rank_iff)

lemma phase_ge3: "3 \<le> phase sys c \<longleftrightarrow> (\<exists>g. handlers sys c = Some g \<and>
    (g_pc g = AtDeregister \<or> g_pc g = AtClose \<or> g_pc g = Returned))"
  by (cases "handlers sys c") (simp_all add: phase_def pc_rank_iff)

lemma phase_ge4: "4 \<le> phase sys c \<longleftrightarrow> (\<exists>g. handlers sys c = Some g \<and>
    (g_pc g = AtClose \<or> g_pc g = Returned))"
  by (cases "handlers sys c") (simp_all add: phase_def pc_rank_iff)

lemma phase_5: "phase sys c = 5 \<longleftrightarrow> (\<exists>g. handlers sys c = Some g \<and> g_pc g = Returned)"
  by (cases "handlers sys c") (simp_all add: phase_def pc_rank_iff)

lemma unregistered_early:
  assumes inv: "lifecycle_inv sys" and "phase sys c \<le> 1 \<or> 4 \<le> phase sys c"
  shows "registered (st sys) r c = None"
proof (rule ccontr)
  assume "registered (st sys) r c \<noteq> None"
  then obtain x where "registered (st sys) r c = Some x" by blast
  from invD2 [OF inv this] obtain g where "handlers sys c = Some g"
    "g_pc g = AtWait \<or> g_pc g = AtDeregister" by blast
  with assms(2) show False by (auto simp add: phase_le1 phase_ge4)
qed

text \<open>
  Claim C4. In every run of the server and for every connection \<open>c\<close>: the call that
  owns \<open>c\<close> moves through its phases one at a time and never back (upgraded,
  registered and waiting, woken, deregistered, closed and returned). Before the
  registration step \<open>c\<close> is in no set and open; while waiting or woken it is in the set
  of its room, with its cancel function, and open; a waiting call whose context is not
  done is still waiting after any step of the server; a call that is woken or further
  has a context that is done; a call that is deregistered or further has \<open>c\<close> in no
  set; and \<open>c\<close> is closed exactly when the call has returned, so the return comes after
  the deregistration.
\<close>

theorem handleSubscribe_lifecycle_order:
  "(let sys = exec l q acts; sys' = exec l q (acts @ [a]); s = st sys in
      (phase sys' c = phase sys c \<or> phase sys' c = Suc (phase sys c))
    \<and> (phase sys c \<le> 1 \<longrightarrow> (\<forall>r. registered s r c = None) \<and> c \<notin> closed s)
    \<and> (phase sys c = 2 \<or> phase sys c = 3 \<longrightarrow>
         (\<exists>g. handlers sys c = Some g \<and> registered s (g_room g) c = Some (g_ctx g))
         \<and> c \<notin> closed s)
    \<and> (\<forall>g. handlers sys c = Some g \<longrightarrow> phase sys c = 2 \<longrightarrow> g_ctx g \<notin> cancelled s \<longrightarrow>
         phase sys' c = 2)
    \<and> (3 \<le> phase sys c \<longrightarrow> (\<exists>g. handlers sys c = Some g \<and> g_ctx g \<in> cancelled s))
    \<and> (4 \<le> phase sys c \<longrightarrow> (\<forall>r. registered s r c = None))
    \<and> (c \<in> closed s \<longleftrightarrow> phase sys c = 5))"
proof -
  define sys where "sys = exec l q acts"
  have inv: "lifecycle_inv sys" unfolding sys_def by (rule inv_exec)
  have snoc: "exec l q (acts @ [a]) = step l q a sys" by (simp add: sys_def exec_snoc)
  have 1: "phase (step l q a sys) c = phase sys c \<or> phase (step l q a sys) c = Suc (phase sys c)"
    using inv by (rule phase_step)
  have cl: "c \<in> closed (st sys) \<longleftrightarrow> phase sys c = 5"
    using invD5 [OF inv, of c] by (simp add: phase_5)
  have 2: "phase sys c \<le> 1 \<longrightarrow> (\<forall>r. registered (st sys) r c = None) \<and> c \<notin> closed (st sys)"
    using unregistered_early [OF inv, of c] cl by auto
  have 3: "phase sys c = 2 \<or> phase sys c = 3 \<longrightarrow>
         (\<exists>g. handlers sys c = Some g \<and> registered (st sys) (g_room g) c = Some (g_ctx g))
         \<and> c \<notin> closed (st sys)"
    using invD3 [OF inv, of c] cl by (auto simp add: phase_2 phase_3 phase_5)
  have 4: "\<forall>g. handlers sys c = Some g \<longrightarrow> phase sys c = 2 \<longrightarrow> g_ctx g \<notin> cancelled (st sys) \<longrightarrow>
         phase (step l q a sys) c = 2"
    using phase_blocked [OF inv, of c _ l q a] by (auto simp add: phase_2)
  have 5: "3 \<le> phase sys c \<longrightarrow> (\<exists>g. handlers sys c = Some g \<and> g_ctx g \<in> cancelled (st sys))"
    using invD4 [OF inv, of c] by (auto simp add: phase_ge3)
  have 6: "4 \<le> phase sys c \<longrightarrow> (\<forall>r. registered (st sys) r c = None)"
    using unregistered_early [OF inv, of c] by auto
  from 1 2 3 4 5 6 cl show ?thesis
    unfolding Let_def snoc sys_def [symmetric] by blast
qed

lemmas run_defs = exec_def init_def NewHandler_def handleSubscribe_begin_def
  handleSubscribe_step_def Upgrade_def WithCancel_def Register_def Deregister_def Close_def
  CancelFunc_def sample_lib_def sample_q_def sample_run_def phase_def registered_def

text \<open>
  The run of one subscriber: upgraded, registered, blocked while its context is not
  done, woken once it is, deregistered, closed.
\<close>

theorem handleSubscribe_lifecycle_order_witness:
  "phase (exec sample_lib sample_q (take 1 sample_run)) 0 = 1
   \<and> phase (exec sample_lib sample_q (take 2 sample_run)) 0 = 2
   \<and> phase (exec sample_lib sample_q (take 2 sample_run @ [Run 0])) 0 = 2
   \<and> (\<exists>g. handlers (exec sample_lib sample_q (take 2 sample_run)) 0 = Some g
         \<and> registered (st (exec sample_lib sample_q (take 2 sample_run))) (g_room g) 0
             = Some (g_ctx g))
   \<and> phase (exec sample_lib sample_q (take 4 sample_run)) 0 = 3
   \<and> (\<exists>g. handlers (exec sample_lib sample_q (take 4 sample_run)) 0 = Some g
         \<and> g_ctx g \<in> cancelled (st (exec sample_lib sample_q (take 4 sample_run))))
   \<and> phase (exec sample_lib sample_q (take 5 sample_run)) 0 = 4
   \<and> (\<forall>r. registered (st (exec sample_lib sample_q (take 5 sample_run))) r 0 = None)
   \<and> 0 \<notin> closed (st (exec sample_lib sample_q (take 5 sample_run)))
   \<and> phase (exec sample_lib sample_q sample_run) 0 = 5
   \<and> 0 \<in> closed (st (exec sample_lib sample_q sample_run))"
proof -
  have ph: "phase (exec sample_lib sample_q (take 1 sample_run)) 0 = 1"
    "phase (exec sample_lib sample_q (take 2 sample_run)) 0 = 2"
    "phase (exec sample_lib sample_q (take 4 sample_run)) 0 = 3"
    "phase (exec sample_lib sample_q (take 5 sample_run)) 0 = 4"
    "phase (exec sample_lib sample_q sample_run) 0 = 5"
    by (simp_all add: run_defs)
  have w: "handlers (exec sample_lib sample_q (take 2 sample_run)) 0 =
      Some \<lparr>g_room = ''0b0e7d2a-5c1f-4e7a-9f53-2d6a8c1e4b90'', g_ctx = 0, g_pc = AtWait\<rparr>"
    "0 \<notin> cancelled (st (exec sample_lib sample_q (take 2 sample_run)))"
    by (simp_all add: run_defs)
  note t2 = handleSubscribe_lifecycle_order
    [of sample_lib sample_q "take 2 sample_run" "Run 0" 0, unfolded Let_def]
  note t4 = handleSubscribe_lifecycle_order
    [of sample_lib sample_q "take 4 sample_run" "Run 0" 0, unfolded Let_def]
  note t5 = handleSubscribe_lifecycle_order
    [of sample_lib sample_q "take 5 sample_run" "Run 0" 0, unfolded Let_def]
  note t6 = handleSubscribe_lifecycle_order
    [of sample_lib sample_q sample_run "Run 0" 0, unfolded Let_def]
  from t2 ph(2) w have a: "phase (exec sample_lib sample_q (take 2 sample_run @ [Run 0])) 0 = 2"
    "\<exists>g. handlers (exec sample_lib sample_q (take 2 sample_run)) 0 = Some g
         \<and> registered (st (exec sample_lib sample_q (take 2 sample_run))) (g_room g) 0
             = Some (g_ctx g)"
    by simp_all
  from t4 ph(3) have b: "\<exists>g. handlers (exec sample_lib sample_q (take 4 sample_run)) 0 = Some g
         \<and> g_ctx g \<in> cancelled (st (exec sample_lib sample_q (take 4 sample_run)))"
    by simp
  from t5 ph(4) have c: "\<forall>r. registered (st (exec sample_lib sample_q (take 5 sample_run))) r 0 = None"
    "0 \<notin> closed (st (exec sample_lib sample_q (take 5 sample_run)))"
    by simp_all
  from t6 ph(5) have d: "0 \<in> closed (st (exec sample_lib sample_q sample_run))"
    by simp
  from ph a b c d show ?thesis by simp
qed

subsection \<open>One room per connection\<close>

lemma registered_step_cases:
  "registered (st (step l q a sys)) = registered (st sys)
   \<or> (\<exists>k g. a = Run k \<and> handlers sys k = Some g \<and> g_pc g = AtRegister
        \<and> registered (st (step l q a sys)) =
            (\<lambda>r c. if r = g_room g \<and> c = k then Some (g_ctx g) else registered (st sys) r c))
   \<or> (\<exists>k g. a = Run k \<and> handlers sys k = Some g \<and> g_pc g = AtDeregister
        \<and> registered (st (step l q a sys)) =
            (\<lambda>r c. if r = g_room g \<and> c = k then None else registered (st sys) r c))"
proof (cases a)
  case (Subscribe db raw ok)
  from handleSubscribe_begin_cases [of l q db raw ok "st sys"]
  show ?thesis unfolding Subscribe by auto
next
  case (Run k)
  show ?thesis
  proof (cases "handlers sys k")
    case None
    then show ?thesis by (simp add: Run)
  next
    case (Some g)
    have "registered (Register (g_room g) k (g_ctx g) (st sys)) =
        (\<lambda>r c. if r = g_room g \<and> c = k then Some (g_ctx g) else registered (st sys) r c)"
      by (rule ext)+ (simp add: registered_Register)
    moreover have "registered (Deregister (g_room g) k (st sys)) =
        (\<lambda>r c. if r = g_room g \<and> c = k then None else registered (st sys) r c)"
      by (rule ext)+ (simp add: registered_Deregister)
    ultimately show ?thesis
      unfolding Run Run_unfold [OF Some]
      using Some by (cases "g_pc g") simp_all
  qed
qed simp_all

text \<open>
  Claim C9. In every run of the server a connection is in the set of at most one room.
  Whenever a step puts connection \<open>c\<close> into the set of a room, that step is the
  registration step of the call that owns \<open>c\<close>, \<open>c\<close> was in no set before it and is
  in no other set after it; so a connection is never added to a set while it is in one.
\<close>

theorem connection_in_at_most_one_room:
  "(let sys = exec l q acts; sys' = exec l q (acts @ [a]) in
     (\<forall>r1 r2. registered (st sys) r1 c \<noteq> None \<longrightarrow> registered (st sys) r2 c \<noteq> None \<longrightarrow> r1 = r2)
   \<and> (\<forall>r. registered (st sys) r c = None \<longrightarrow> registered (st sys') r c \<noteq> None \<longrightarrow>
        a = Run c
        \<and> (\<forall>r'. registered (st sys) r' c = None)
        \<and> (\<forall>r'. r' \<noteq> r \<longrightarrow> registered (st sys') r' c = None)))"
proof -
  define sys where "sys = exec l q acts"
  have inv: "lifecycle_inv sys" unfolding sys_def by (rule inv_exec)
  have snoc: "exec l q (acts @ [a]) = step l q a sys" by (simp add: sys_def exec_snoc)
  have 1: "r1 = r2" if "registered (st sys) r1 c \<noteq> None" "registered (st sys) r2 c \<noteq> None"
    for r1 r2
  proof -
    from that obtain x1 x2 where "registered (st sys) r1 c = Some x1"
      "registered (st sys) r2 c = Some x2" by blast
    from invD2 [OF inv this(1)] invD2 [OF inv this(2)] show ?thesis by auto
  qed
  have 2: "a = Run c \<and> (\<forall>r'. registered (st sys) r' c = None)
        \<and> (\<forall>r'. r' \<noteq> r \<longrightarrow> registered (st (step l q a sys)) r' c = None)"
    if old: "registered (st sys) r c = None" and new: "registered (st (step l q a sys)) r c \<noteq> None"
    for r
  proof -
    from registered_step_cases [of l q a sys] old new
    obtain k g where kg: "a = Run k" "handlers sys k = Some g" "g_pc g = AtRegister"
      and reg: "registered (st (step l q a sys)) =
          (\<lambda>r c. if r = g_room g \<and> c = k then Some (g_ctx g) else registered (st sys) r c)"
      by (auto split: if_splits)
    from reg old new have rk: "r = g_room g" "c = k" by (auto split: if_splits)
    from kg rk have "phase sys c \<le> 1" by (simp add: phase_le1)
    then have none: "\<forall>r'. registered (st sys) r' c = None"
      using unregistered_early [OF inv, of c] by blast
    with reg rk have "\<forall>r'. r' \<noteq> r \<longrightarrow> registered (st (step l q a sys)) r' c = None"
      by simp
    with kg rk none show ?thesis by blast
  qed
  from 1 2 show ?thesis
    unfolding Let_def snoc sys_def [symmetric] by blast
qed

text \<open>
  Two subscribers under two keys: the registration of connection 1 finds it in no set
  and puts it under its own key only, next to connection 0 under the other.
\<close>

theorem connection_in_at_most_one_room_witness:
  "registered (st (exec sample_lib sample_q sample_run2)) ''0b0e7d2a5c1f4e7a9f532d6a8c1e4b90'' 1 = None
   \<and> registered (st (exec sample_lib sample_q (sample_run2 @ [Run 1])))
        ''0b0e7d2a5c1f4e7a9f532d6a8c1e4b90'' 1 = Some 1
   \<and> (\<forall>r'. registered (st (exec sample_lib sample_q sample_run2)) r' 1 = None)
   \<and> registered (st (exec sample_lib sample_q (sample_run2 @ [Run 1])))
        ''0b0e7d2a-5c1f-4e7a-9f53-2d6a8c1e4b90'' 1 = None
   \<and> registered (st (exec sample_lib sample_q (sample_run2 @ [Run 1])))
        ''0b0e7d2a-5c1f-4e7a-9f53-2d6a8c1e4b90'' 0 = Some 0"
proof -
  have e1: "registered (st (exec sample_lib sample_q sample_run2))
        ''0b0e7d2a5c1f4e7a9f532d6a8c1e4b90'' 1 = None"
    by (simp add: run_defs sample_run2_def)
  have e2: "registered (st (exec sample_lib sample_q (sample_run2 @ [Run 1])))
        ''0b0e7d2a5c1f4e7a9f532d6a8c1e4b90'' 1 = Some 1"
    by (simp add: run_defs sample_run2_def)
  have e3: "registered (st (exec sample_lib sample_q (sample_run2 @ [Run 1])))
        ''0b0e7d2a-5c1f-4e7a-9f53-2d6a8c1e4b90'' 0 = Some 0"
    by (simp add: run_defs sample_run2_def)
  from e2 have ne: "registered (st (exec sample_lib sample_q (sample_run2 @ [Run 1])))
        ''0b0e7d2a5c1f4e7a9f532d6a8c1e4b90'' 1 \<noteq> None"
    by simp
  note t = connection_in_at_most_one_room
    [where l = sample_lib and q = sample_q and acts = sample_run2 and c = 1 and a = "Run 1",
      unfolded Let_def]
  note u = t [THEN conjunct2, THEN spec, THEN mp, THEN mp, OF e1 ne]
  from u have c1: "\<forall>r'. registered (st (exec sample_lib sample_q sample_run2)) r' 1 = None"
    by (rule conjunct1 [OF conjunct2])
  from u have "\<forall>r'. r' \<noteq> ''0b0e7d2a5c1f4e7a9f532d6a8c1e4b90'' \<longrightarrow>
      registered (st (exec sample_lib sample_q (sample_run2 @ [Run 1]))) r' 1 = None"
    by (rule conjunct2 [OF conjunct2])
  then have c2: "registered (st (exec sample_lib sample_q (sample_run2 @ [Run 1])))
        ''0b0e7d2a-5c1f-4e7a-9f53-2d6a8c1e4b90'' 1 = None"
    by simp
  from e1 e2 c1 c2 e3 show ?thesis by (intro conjI)
qed

subsection \<open>Inner maps as association lists\<close>

text \<open>
  Go leaves the order of \<open>range\<close> over a map open, and a map holds one entry per key.
  The delivery loop gives the same state for every order of the same entries, and every
  table the server can reach has one entry per connection in each inner list.
\<close>

lemma notify_loop_order:
  assumes "distinct (map fst xs)" and "distinct (map fst ys)" and "set xs = set ys"
  shows "notify_loop msg xs s = notify_loop msg ys s"
proof (rule state.equality)
  show "cancelled (notify_loop msg xs s) = cancelled (notify_loop msg ys s)"
    using assms(3) by (simp add: notify_loop_cancelled)
  show "sent (notify_loop msg xs s) = sent (notify_loop msg ys s)"
  proof (rule ext)
    fix c
    show "sent (notify_loop msg xs s) c = sent (notify_loop msg ys s) c"
    proof (cases "c \<in> fst ` set xs")
      case True
      with assms show ?thesis by (simp add: notify_loop_sent)
    next
      case False
      with assms(3) show ?thesis by (simp add: notify_loop_sent_other)
    qed
  qed
qed (simp_all add: notify_loop_frame)

lemma distinct_Register:
  assumes "\<And>r m. subscribes s r = Some m \<Longrightarrow> distinct (map fst m)"
    and "subscribes (Register r0 c x s) r = Some m"
  shows "distinct (map fst m)"
proof (cases "r = r0")
  case True
  with assms(2) have "m = AList.update c x (case subscribes s r0 of None \<Rightarrow> [] | Some m \<Rightarrow> m)"
    by (simp add: Register_def Let_def)
  moreover have "distinct (map fst (case subscribes s r0 of None \<Rightarrow> [] | Some m \<Rightarrow> m))"
    using assms(1) by (cases "subscribes s r0") simp_all
  ultimately show ?thesis by (simp add: distinct_update)
next
  case False
  with assms show ?thesis by (simp add: Register_def Let_def)
qed

lemma distinct_Deregister:
  assumes "\<And>r m. subscribes s r = Some m \<Longrightarrow> distinct (map fst m)"
    and "subscribes (Deregister r0 c s) r = Some m"
  shows "distinct (map fst m)"
proof (cases "subscribes s r0")
  case None
  with assms show ?thesis by (simp add: Deregister_def)
next
  case (Some m0)
  show ?thesis
  proof (cases "r = r0")
    case True
    with assms(2) Some have "m = AList.delete c m0" by (simp add: Deregister_def)
    with assms(1) [OF Some] show ?thesis by (simp add: distinct_delete)
  next
    case False
    with assms Some show ?thesis by (simp add: Deregister_def)
  qed
qed

lemma distinct_step:
  assumes d: "\<And>r m. subscribes (st sys) r = Some m \<Longrightarrow> distinct (map fst m)"
    and s: "subscribes (st (step l q a sys)) r = Some m"
  shows "distinct (map fst m)"
proof (cases a)
  case (Subscribe db raw ok)
  from handleSubscribe_begin_cases [of l q db raw ok "st sys"] s d
  show ?thesis unfolding Subscribe by auto
next
  case (Run k)
  show ?thesis
  proof (cases "handlers sys k")
    case None
    with s d show ?thesis by (simp add: Run)
  next
    case (Some g)
    from s show ?thesis
      unfolding Run Run_unfold [OF Some]
      using d distinct_Register [of "st sys" "g_room g" k "g_ctx g" r m]
        distinct_Deregister [of "st sys" "g_room g" k r m]
      by (cases "g_pc g") (auto simp add: Close_def split: if_splits)
  qed
next
  case (Notify msg)
  with s d show ?thesis by (simp add: notifyClients_frame)
next
  case (Done x)
  with s d show ?thesis by (simp add: CancelFunc_def)
next
  case (Break k)
  with s d show ?thesis by simp
qed

lemma distinct_foldl:
  "(\<And>r m. subscribes (st sys) r = Some m \<Longrightarrow> distinct (map fst m)) \<Longrightarrow>
   subscribes (st (foldl (\<lambda>sys a. step l q a sys) sys acts)) r = Some m \<Longrightarrow>
   distinct (map fst m)"
proof (induction acts arbitrary: sys)
  case Nil
  then show ?case by simp
next
  case (Cons a acts)
  show ?case
  proof (rule Cons.IH [of "step l q a sys"])
    fix r' m' assume "subscribes (st (step l q a sys)) r' = Some m'"
    with Cons.prems(1) show "distinct (map fst m')" by (rule distinct_step)
  next
    from Cons.prems(2)
    show "subscribes (st (foldl (\<lambda>sys a. step l q a sys) (step l q a sys) acts)) r = Some m"
      by simp
  qed
qed

lemma distinct_exec:
  "subscribes (st (exec l q acts)) r = Some m \<Longrightarrow> distinct (map fst m)"
  unfolding exec_def by (rule distinct_foldl [of init]) (simp_all add: init_def NewHandler_def)

end
